theory Spec2Isabelle
  imports Main "HOL-Library.AList"
begin

section \<open>Python strings\<close>

text \<open>
  A Python \<open>str\<close> is a sequence of Unicode code points, so a character is modelled by
  its code point and a string by the list of its code points. \<open>str ''abc''\<close> is the
  Python literal \<open>"abc"\<close>.
\<close>

type_synonym pychar = nat
type_synonym pystr = "pychar list"

abbreviation str :: "string \<Rightarrow> pystr" where
  "str \<equiv> map of_char"

text \<open>
  \<open>str.isspace\<close> for one character, which is what \<open>str.split()\<close> without a separator
  splits on: tab, line feed, vertical tab, form feed, carriage return, the separators
  U+001C to U+001F, space, U+0085, U+00A0, U+1680, U+2000 to U+200A, U+2028, U+2029,
  U+202F, U+205F and U+3000.
\<close>

definition isspace :: "pychar \<Rightarrow> bool" where
  "isspace c \<longleftrightarrow>
     (9 \<le> c \<and> c \<le> 13) \<or> (28 \<le> c \<and> c \<le> 32) \<or> c = 133 \<or> c = 160 \<or> c = 5760 \<or>
     (8192 \<le> c \<and> c \<le> 8202) \<or> c = 8232 \<or> c = 8233 \<or> c = 8239 \<or> c = 8287 \<or> c = 12288"

text \<open>
  The line boundaries of \<open>str.splitlines\<close>: line feed, vertical tab, form feed,
  carriage return, U+001C, U+001D, U+001E, U+0085, U+2028 and U+2029.
\<close>

definition islinebreak :: "pychar \<Rightarrow> bool" where
  "islinebreak c \<longleftrightarrow>
     (10 \<le> c \<and> c \<le> 13) \<or> (28 \<le> c \<and> c \<le> 30) \<or> c = 133 \<or> c = 8232 \<or> c = 8233"

text \<open>
  \<open>s.split(maxsplit=m)\<close> with no separator. \<open>None\<close> is the default \<open>maxsplit=-1\<close>
  (no bound). Leading whitespace is skipped before every piece; once the bound is used
  up, what is left after the skipped whitespace is the last piece, taken whole up to the
  end of the string (trailing whitespace included).
\<close>

function split :: "nat option \<Rightarrow> pystr \<Rightarrow> pystr list" where
  "split m s =
     (let t = dropWhile isspace s in
      if t = [] then []
      else if m = Some 0 then [t]
      else takeWhile (\<lambda>c. \<not> isspace c) t
             # split (map_option (\<lambda>n. n - 1) m) (dropWhile (\<lambda>c. \<not> isspace c) t))"
  by pat_completeness auto
termination
proof (relation "measure (\<lambda>(m, s). length s)", goal_cases)
  case 1
  show ?case by simp
next
  case (2 m s t)
  from 2 have ne: "dropWhile isspace s \<noteq> []" by simp
  then obtain c cs where t: "dropWhile isspace s = c # cs"
    by (cases "dropWhile isspace s") simp_all
  from ne have "\<not> isspace (hd (dropWhile isspace s))" by (rule hd_dropWhile)
  with t have "\<not> isspace c" by simp
  with t have "length (dropWhile (\<lambda>c. \<not> isspace c) (dropWhile isspace s)) \<le> length cs"
    by (simp add: length_dropWhile_le)
  with t have "length (dropWhile (\<lambda>c. \<not> isspace c) (dropWhile isspace s))
      < length (dropWhile isspace s)"
    by simp
  moreover have "length (dropWhile isspace s) \<le> length s"
    by (rule length_dropWhile_le)
  ultimately show ?case using 2 by simp
qed

text \<open>\<open>s.splitlines()\<close>: \<open>cur\<close> is the line read so far; CR LF is one boundary.\<close>

fun splitlines_from :: "pystr \<Rightarrow> pystr \<Rightarrow> pystr list" where
  "splitlines_from cur [] = (if cur = [] then [] else [cur])"
| "splitlines_from cur [c] = (if islinebreak c then [cur] else [cur @ [c]])"
| "splitlines_from cur (c # d # s) =
     (if islinebreak c then
        cur # (if c = 13 \<and> d = 10 then splitlines_from [] s else splitlines_from [] (d # s))
      else splitlines_from (cur @ [c]) (d # s))"

definition splitlines :: "pystr \<Rightarrow> pystr list" where
  "splitlines s = splitlines_from [] s"

text \<open>\<open>s.startswith(p)\<close>.\<close>

definition startswith :: "pystr \<Rightarrow> pystr \<Rightarrow> bool" where
  "startswith s p \<longleftrightarrow> take (length p) s = p"

text \<open>
  \<open>s.count(sub)\<close>: the number of non-overlapping occurrences of \<open>sub\<close>, scanning from
  the left.
\<close>

function count :: "pystr \<Rightarrow> pystr \<Rightarrow> nat" where
  "count s sub =
     (if sub = [] then length s + 1
      else if length s < length sub then 0
      else if take (length sub) s = sub then 1 + count (drop (length sub) s) sub
      else count (drop 1 s) sub)"
  by pat_completeness auto
termination
proof (relation "measure (\<lambda>(s, sub). length s)", goal_cases)
  case 1
  show ?case by simp
next
  case (2 s sub)
  from 2(1) have a: "0 < length sub" by simp
  from 2(2) have b: "length sub \<le> length s" by simp
  from a b have "length s - length sub < length s" by linarith
  then show ?case by simp
next
  case (3 s sub)
  from 3(1) have a: "0 < length sub" by simp
  from 3(2) have b: "length sub \<le> length s" by simp
  from a b have "length s - 1 < length s" by linarith
  then show ?case by simp
qed

text \<open>\<open>s.strip(chars)\<close>: removes the characters of \<open>chars\<close> from both ends.\<close>

definition strip :: "pystr \<Rightarrow> pystr \<Rightarrow> pystr" where
  "strip chars s =
     rev (dropWhile (\<lambda>c. c \<in> set chars) (rev (dropWhile (\<lambda>c. c \<in> set chars) s)))"

section \<open>Regular expressions\<close>

text \<open>
  The patterns of the module use literal characters, character classes of ranges,
  \<open>.\<close> (any character but line feed), grouping, \<open>*\<close>, \<open>+\<close> and \<open>?\<close>. \<open>Never\<close>, \<open>Empty\<close>
  and \<open>Alt\<close> only arise as derivatives.
\<close>

datatype regex =
    Never
  | Empty
  | Lit pychar
  | Class "(pychar \<times> pychar) list"
  | Dot
  | Alt regex regex
  | Cat regex regex
  | Star regex
  | Plus regex
  | Opt regex

fun in_class :: "(pychar \<times> pychar) list \<Rightarrow> pychar \<Rightarrow> bool" where
  "in_class [] c = False"
| "in_class ((lo, hi) # rs) c = ((lo \<le> c \<and> c \<le> hi) \<or> in_class rs c)"

fun nullable :: "regex \<Rightarrow> bool" where
  "nullable Never = False"
| "nullable Empty = True"
| "nullable (Lit c) = False"
| "nullable (Class rs) = False"
| "nullable Dot = False"
| "nullable (Alt r s) = (nullable r \<or> nullable s)"
| "nullable (Cat r s) = (nullable r \<and> nullable s)"
| "nullable (Star r) = True"
| "nullable (Plus r) = nullable r"
| "nullable (Opt r) = True"

fun deriv :: "pychar \<Rightarrow> regex \<Rightarrow> regex" where
  "deriv c Never = Never"
| "deriv c Empty = Never"
| "deriv c (Lit d) = (if c = d then Empty else Never)"
| "deriv c (Class rs) = (if in_class rs c then Empty else Never)"
| "deriv c Dot = (if c = 10 then Never else Empty)"
| "deriv c (Alt r s) = Alt (deriv c r) (deriv c s)"
| "deriv c (Cat r s) =
     (if nullable r then Alt (Cat (deriv c r) s) (deriv c s) else Cat (deriv c r) s)"
| "deriv c (Star r) = Cat (deriv c r) (Star r)"
| "deriv c (Plus r) = Cat (deriv c r) (Star r)"
| "deriv c (Opt r) = deriv c r"

text \<open>\<open>re.fullmatch(pattern, s)\<close> as a truth value: the whole of \<open>s\<close> matches.\<close>

definition fullmatch :: "regex \<Rightarrow> pystr \<Rightarrow> bool" where
  "fullmatch r s = nullable (fold deriv s r)"

text \<open>The language of a pattern, against which the matcher is verified.\<close>

inductive_set star :: "pystr set \<Rightarrow> pystr set" for A :: "pystr set" where
  star_Nil: "[] \<in> star A"
| star_app: "u \<in> A \<Longrightarrow> v \<in> star A \<Longrightarrow> u @ v \<in> star A"

definition conc :: "pystr set \<Rightarrow> pystr set \<Rightarrow> pystr set" where
  "conc A B = {u @ v | u v. u \<in> A \<and> v \<in> B}"

fun lang :: "regex \<Rightarrow> pystr set" where
  "lang Never = {}"
| "lang Empty = {[]}"
| "lang (Lit c) = {[c]}"
| "lang (Class rs) = {[c] | c. in_class rs c}"
| "lang Dot = {[c] | c. c \<noteq> 10}"
| "lang (Alt r s) = lang r \<union> lang s"
| "lang (Cat r s) = conc (lang r) (lang s)"
| "lang (Star r) = star (lang r)"
| "lang (Plus r) = conc (lang r) (star (lang r))"
| "lang (Opt r) = insert [] (lang r)"

fun cats :: "regex list \<Rightarrow> regex" where
  "cats [] = Empty"
| "cats [r] = r"
| "cats (r # rs) = Cat r (cats rs)"

abbreviation lit :: "char \<Rightarrow> regex" where
  "lit c \<equiv> Lit (of_char c)"

abbreviation range :: "char \<Rightarrow> char \<Rightarrow> pychar \<times> pychar" where
  "range lo hi \<equiv> (of_char lo, of_char hi)"

section \<open>The collaborators of the module\<close>

text \<open>
  Modelled from the spec: the classes \<open>View\<close>, \<open>ChannelView\<close> and \<open>PMView\<close> of
  \<open>mantaray.views\<close> are not among the sources. The conversation context is a channel
  (with its \<open>channel_name\<close>), a direct-message view (with its \<open>other_nick\<close>) or any other
  view, which has no send target.
\<close>

datatype view = ChannelView pystr | PMView pystr | OtherView

text \<open>
  Modelled from the spec: \<open>IrcCore\<close> of \<open>mantaray.backend\<close> is not among the sources
  either. Its methods, \<open>View.add_message\<close> and \<open>messagebox.askyesno\<close> only act on the
  outside world; every call is recorded, in order, as an event:
  \<open>core.send_privmsg(target, text)\<close>, \<open>core.join_channel(channel)\<close>,
  \<open>core.part_channel(channel)\<close>, \<open>core.quit()\<close>, \<open>core.change_nick(nick)\<close>,
  \<open>core.change_topic(channel, topic)\<close>, \<open>view.add_message(sender, (text, tags))\<close> and
  \<open>messagebox.askyesno(title, message, detail=detail)\<close>.
\<close>

datatype event =
    SendPrivmsg pystr pystr
  | JoinChannel pystr
  | PartChannel pystr
  | Quit
  | ChangeNick pystr
  | ChangeTopic pystr pystr
  | AddMessage pystr pystr "pystr list"
  | AskYesNo pystr pystr pystr

datatype error = AssertionError | IndexError | TypeError

text \<open>
  A command function, by its signature after \<open>view\<close> and \<open>core\<close>: no parameter, one
  parameter, one parameter with the default \<open>None\<close>, or two parameters. The names are
  kept, since the dispatcher passes the arguments by keyword.
\<close>

datatype pyfunc =
    Def0 "view \<Rightarrow> event list"
  | Def1 pystr "view \<Rightarrow> pystr \<Rightarrow> event list"
  | Def1opt pystr "view \<Rightarrow> pystr option \<Rightarrow> event list"
  | Def2 pystr pystr "view \<Rightarrow> pystr \<Rightarrow> pystr \<Rightarrow> event list"

text \<open>
  \<open>func(view, core, **kwargs)\<close>: a keyword that names no parameter, or a parameter
  without default that gets no value, is a \<open>TypeError\<close>.
\<close>

fun call :: "pyfunc \<Rightarrow> view \<Rightarrow> (pystr \<times> pystr) list \<Rightarrow> error + event list" where
  "call (Def0 f) view kwargs = (if kwargs = [] then Inr (f view) else Inl TypeError)"
| "call (Def1 p f) view kwargs =
     (if list_all (\<lambda>(k, v). k = p) kwargs then
        (case map_of kwargs p of Some a \<Rightarrow> Inr (f view a) | None \<Rightarrow> Inl TypeError)
      else Inl TypeError)"
| "call (Def1opt p f) view kwargs =
     (if list_all (\<lambda>(k, v). k = p) kwargs then Inr (f view (map_of kwargs p))
      else Inl TypeError)"
| "call (Def2 p q f) view kwargs =
     (if list_all (\<lambda>(k, v). k = p \<or> k = q) kwargs then
        (case map_of kwargs p of
           Some a \<Rightarrow> (case map_of kwargs q of Some b \<Rightarrow> Inr (f view a b) | None \<Rightarrow> Inl TypeError)
         | None \<Rightarrow> Inl TypeError)
      else Inl TypeError)"

text \<open>A dict comprehension over pairs: a later pair with the same key replaces the value.\<close>

definition dict :: "(pystr \<times> pystr) list \<Rightarrow> (pystr \<times> pystr) list" where
  "dict kvs = fold (\<lambda>(k, v). AList.update k v) kvs []"

text \<open>\<open>str(n)\<close> for a length, as the f-string of the dialog formats it.\<close>

fun pystr_of_nat :: "nat \<Rightarrow> pystr" where
  "pystr_of_nat n = (if n < 10 then [48 + n] else pystr_of_nat (n div 10) @ [48 + n mod 10])"

section \<open>commands.py\<close>

type_synonym registry = "pystr \<rightharpoonup> pystr \<times> pyfunc"

text \<open>The pattern \<open>r"/[a-z]+( <[a-z_]+>)*( \[<[a-z_]+>\])*"\<close> of \<open>add_command\<close>.\<close>

definition usage_re :: regex where
  "usage_re =
     cats [lit CHR ''/'', Plus (Class [range CHR ''a'' CHR ''z'']),
       Star (cats [lit CHR '' '', lit CHR ''<'',
                   Plus (Class [range CHR ''a'' CHR ''z'', range CHR ''_'' CHR ''_'']),
                   lit CHR ''>'']),
       Star (cats [lit CHR '' '', lit CHR ''['', lit CHR ''<'',
                   Plus (Class [range CHR ''a'' CHR ''z'', range CHR ''_'' CHR ''_'']),
                   lit CHR ''>'', lit CHR '']''])]"

text \<open>
  \<open>add_command(usage)(func)\<close> on the module's dict \<open>_commands\<close>: the assertion (Python
  runs it unless started with \<open>-O\<close>), then the entry under the first word of the usage
  string.
\<close>

definition add_command :: "pystr \<Rightarrow> pyfunc \<Rightarrow> registry \<Rightarrow> error + registry" where
  "add_command usage func commands =
     (if \<not> fullmatch usage_re usage then Inl AssertionError
      else case split None usage of
             [] \<Rightarrow> Inl IndexError
           | name # rest \<Rightarrow> Inr (commands(name \<mapsto> (usage, func))))"

definition not_sendable :: pystr where
  "not_sendable =
     str ''You can't send messages here. '' @ str ''Join a channel instead and send messages there.''"

definition send_privmsg :: "view \<Rightarrow> pystr \<Rightarrow> event list" where
  "send_privmsg view message =
     (case view of
        ChannelView channel_name \<Rightarrow> [SendPrivmsg channel_name message]
      | PMView other_nick \<Rightarrow> [SendPrivmsg other_nick message]
      | OtherView \<Rightarrow> [AddMessage (str ''*'') not_sendable []])"

definition escape_message :: "pystr \<Rightarrow> pystr" where
  "escape_message s = (if startswith s (str ''/'') then str ''/'' @ s else s)"

text \<open>The pattern \<open>"/[a-z]+( .*)?"\<close> of \<open>handle_command\<close>.\<close>

definition command_re :: regex where
  "command_re =
     cats [lit CHR ''/'', Plus (Class [range CHR ''a'' CHR ''z'']),
           Opt (cats [lit CHR '' '', Star Dot])]"

text \<open>Line 64: the arguments, split off with the bound that the usage string gives.\<close>

definition split_args :: "pystr \<Rightarrow> pystr \<Rightarrow> pystr list" where
  "split_args usage entry_content =
     drop 1 (split (Some (max (count usage (str '' '')) 1)) entry_content)"

text \<open>Lines 54 to 74: the branch taken when the pattern matches.\<close>

definition command_path :: "registry \<Rightarrow> view \<Rightarrow> pystr \<Rightarrow> error + bool \<times> event list" where
  "command_path commands view entry_content =
     (case split None entry_content of
        [] \<Rightarrow> Inl IndexError
      | name # rest \<Rightarrow>
          (case commands name of
             None \<Rightarrow>
               Inr (False,
                 [AddMessage (str ''*'') (str ''No command named '' @ [39] @ name @ [39]) []])
           | Some (usage, func) \<Rightarrow>
               (let args = split_args usage entry_content in
                if length args < count usage (str '' <'') \<or> length args > count usage (str '' '')
                then Inr (False, [AddMessage (str ''*'') (str ''Usage: '' @ usage) []])
                else
                  (case call func view
                          (dict (zip (map (strip (str ''[<>]'')) (drop 1 (split None usage))) args))
                   of Inl e \<Rightarrow> Inl e
                    | Inr evs \<Rightarrow> Inr (True, evs)))))"

definition askyesno_detail :: "nat \<Rightarrow> pystr" where
  "askyesno_detail n =
     str ''You are about to send the '' @ pystr_of_nat n @ str '' lines of text.''
     @ str '' It will be sent as '' @ pystr_of_nat n
     @ str '' separate messages, one line per message.''
     @ str '' Sending many messages like this is usually considered bad style,''
     @ str '' and it's often better to use a pastebin site instead.''
     @ str '' Are you sure you want to do it?''"

definition askyesno_title :: pystr where
  "askyesno_title = str ''Send multiple lines''"

definition askyesno_message :: pystr where
  "askyesno_message = str ''Do you really want to send many lines of text as separate messages?''"

text \<open>Lines 76 to 79: the lines of a plain-text input, after the escape rule.\<close>

definition entry_lines :: "pystr \<Rightarrow> pystr list" where
  "entry_lines entry_content =
     (if startswith entry_content (str ''//'') then splitlines (drop 1 entry_content)
      else splitlines entry_content)"

text \<open>
  Lines 81 to 99: the dialog and the loop over the lines. \<open>askyesno\<close> is the user's answer
  to the dialog, as a function of what the dialog shows.
\<close>

definition send_lines ::
  "(pystr \<Rightarrow> pystr \<Rightarrow> pystr \<Rightarrow> bool) \<Rightarrow> view \<Rightarrow> pystr list \<Rightarrow> bool \<times> event list" where
  "send_lines askyesno view lines =
     (if length lines > 3 then
        (let detail = askyesno_detail (length lines)
         in if \<not> askyesno askyesno_title askyesno_message detail
            then (False, [AskYesNo askyesno_title askyesno_message detail])
            else (True, AskYesNo askyesno_title askyesno_message detail
                          # concat (map (send_privmsg view) lines)))
      else (True, concat (map (send_privmsg view) lines)))"

text \<open>Lines 76 to 99: the branch taken when the pattern does not match.\<close>

definition plain_text_path ::
  "(pystr \<Rightarrow> pystr \<Rightarrow> pystr \<Rightarrow> bool) \<Rightarrow> view \<Rightarrow> pystr \<Rightarrow> bool \<times> event list" where
  "plain_text_path askyesno view entry_content =
     send_lines askyesno view (entry_lines entry_content)"

text \<open>The two users that the examples need: one always answers yes, one always no.\<close>

definition accepts :: "pystr \<Rightarrow> pystr \<Rightarrow> pystr \<Rightarrow> bool" where
  "accepts title message detail = True"

definition declines :: "pystr \<Rightarrow> pystr \<Rightarrow> pystr \<Rightarrow> bool" where
  "declines title message detail = False"

definition handle_command ::
  "registry \<Rightarrow> (pystr \<Rightarrow> pystr \<Rightarrow> pystr \<Rightarrow> bool) \<Rightarrow> view \<Rightarrow> pystr
     \<Rightarrow> error + bool \<times> event list" where
  "handle_command commands askyesno view entry_content =
     (if entry_content = [] then Inr (False, [])
      else if fullmatch command_re entry_content then command_path commands view entry_content
      else Inr (plain_text_path askyesno view entry_content))"

subsection \<open>The default commands\<close>

definition join :: "view \<Rightarrow> pystr \<Rightarrow> event list" where
  "join view channel = [JoinChannel channel]"

definition part :: "view \<Rightarrow> pystr option \<Rightarrow> event list" where
  "part view channel =
     (case channel of
        Some c \<Rightarrow> [PartChannel c]
      | None \<Rightarrow>
          (case view of
             ChannelView channel_name \<Rightarrow> [PartChannel channel_name]
           | _ \<Rightarrow>
               [AddMessage (str ''*'') (str ''Usage: /part [<channel>]'') [],
                AddMessage (str ''*'')
                  (str ''Channel is needed unless you are currently on a channel.'') []]))"

definition quit :: "view \<Rightarrow> event list" where
  "quit view = [Quit]"

definition nick :: "view \<Rightarrow> pystr \<Rightarrow> event list" where
  "nick view new_nick = [ChangeNick new_nick]"

definition topic :: "view \<Rightarrow> pystr \<Rightarrow> event list" where
  "topic view new_topic =
     (case view of
        ChannelView channel_name \<Rightarrow> [ChangeTopic channel_name new_topic]
      | _ \<Rightarrow> [AddMessage (str ''*'') (str ''You must be on a channel to change its topic.'') []])"

definition me :: "view \<Rightarrow> pystr \<Rightarrow> event list" where
  "me view message = send_privmsg view ([1] @ str ''ACTION '' @ message @ [1])"

definition msg :: "view \<Rightarrow> pystr \<Rightarrow> pystr \<Rightarrow> event list" where
  "msg view nick' message = [SendPrivmsg nick' message]"

definition msg_nickserv :: "view \<Rightarrow> pystr \<Rightarrow> event list" where
  "msg_nickserv view message = msg view (str ''NickServ'') message"

definition msg_memoserv :: "view \<Rightarrow> pystr \<Rightarrow> event list" where
  "msg_memoserv view message = msg view (str ''MemoServ'') message"

text \<open>
  \<open>_add_default_commands\<close>, in the order in which the entries are stored: of two
  decorators on one function the lower one stores its entry first.
\<close>

definition default_commands :: "(pystr \<times> pyfunc) list" where
  "default_commands =
     [(str ''/join <channel>'', Def1 (str ''channel'') join),
      (str ''/part [<channel>]'', Def1opt (str ''channel'') part),
      (str ''/quit'', Def0 quit),
      (str ''/nick <new_nick>'', Def1 (str ''new_nick'') nick),
      (str ''/topic <new_topic>'', Def1 (str ''new_topic'') topic),
      (str ''/me <message>'', Def1 (str ''message'') me),
      (str ''/msg <nick> <message>'', Def2 (str ''nick'') (str ''message'') msg),
      (str ''/nickserv <message>'', Def1 (str ''message'') msg_nickserv),
      (str ''/ns <message>'', Def1 (str ''message'') msg_nickserv),
      (str ''/memoserv <message>'', Def1 (str ''message'') msg_memoserv),
      (str ''/ms <message>'', Def1 (str ''message'') msg_memoserv)]"

definition add_commands :: "(pystr \<times> pyfunc) list \<Rightarrow> registry \<Rightarrow> error + registry" where
  "add_commands cs commands =
     fold (\<lambda>(usage, func) r. case r of Inl e \<Rightarrow> Inl e | Inr c \<Rightarrow> add_command usage func c)
       cs (Inr commands)"

definition add_default_commands :: "error + registry" where
  "add_default_commands = add_commands default_commands Map.empty"

section \<open>The usage grammar, as the spec states it\<close>

text \<open>
  The spec (sections 3 and 4.1): a usage string is a command token \<open>/name\<close>, where
  \<open>name\<close> matches \<open>[a-z]+\<close>, followed by parameter tokens, each after one space: a
  required parameter \<open><ident>\<close> or an optional parameter \<open>[<ident>]\<close>, where \<open>ident\<close>
  matches \<open>[a-z_]+\<close>; no required parameter comes after an optional one.
\<close>

definition lower :: "pychar \<Rightarrow> bool" where
  "lower c \<longleftrightarrow> 97 \<le> c \<and> c \<le> 122"

definition ident_char :: "pychar \<Rightarrow> bool" where
  "ident_char c \<longleftrightarrow> lower c \<or> c = 95"

definition name_ok :: "pystr \<Rightarrow> bool" where
  "name_ok name \<longleftrightarrow> name \<noteq> [] \<and> list_all lower name"

definition ident_ok :: "pystr \<Rightarrow> bool" where
  "ident_ok i \<longleftrightarrow> i \<noteq> [] \<and> list_all ident_char i"

datatype param = Required pystr | Optional pystr

fun token :: "param \<Rightarrow> pystr" where
  "token (Required i) = str ''<'' @ i @ str ''>''"
| "token (Optional i) = str ''[<'' @ i @ str ''>]''"

fun ident :: "param \<Rightarrow> pystr" where
  "ident (Required i) = i"
| "ident (Optional i) = i"

fun is_required :: "param \<Rightarrow> bool" where
  "is_required (Required i) = True"
| "is_required (Optional i) = False"

definition usage_of :: "pystr \<Rightarrow> param list \<Rightarrow> pystr" where
  "usage_of name params = str ''/'' @ name @ concat (map (\<lambda>p. str '' '' @ token p) params)"

fun required_first :: "param list \<Rightarrow> bool" where
  "required_first [] = True"
| "required_first (Required i # ps) = required_first ps"
| "required_first (Optional i # ps) = list_all (\<lambda>p. \<not> is_required p) ps"


definition usage_ok :: "pystr \<Rightarrow> param list \<Rightarrow> bool" where
  "usage_ok name params \<longleftrightarrow> name_ok name \<and> list_all (\<lambda>p. ident_ok (ident p)) params"


definition params_text :: "param list \<Rightarrow> pystr" where
  "params_text params = concat (map (\<lambda>p. str '' '' @ token p) params)"


text \<open>
  The spec (section 4.3, step 2): an input takes the command path when it matches
  \<open>/<letters>(\s.*)?\<close>, that is a slash, one or more lowercase letters, then optionally a
  whitespace character followed by anything.
\<close>

definition spec_command_shape :: "pystr \<Rightarrow> bool" where
  "spec_command_shape s \<longleftrightarrow>
     (\<exists>name. name_ok name \<and>
        (s = str ''/'' @ name \<or> (\<exists>c t. isspace c \<and> s = str ''/'' @ name @ c # t)))"

text \<open>
  The module's dict \<open>_commands\<close> once the module is imported, that is after
  \<open>_add_default_commands()\<close>.
\<close>

definition commands :: registry where
  "commands = (case add_default_commands of Inr c \<Rightarrow> c | Inl e \<Rightarrow> Map.empty)"

section \<open>The matcher decides the language of the pattern\<close>

lemma conc_iff: "w \<in> conc A B \<longleftrightarrow> (\<exists>u v. w = u @ v \<and> u \<in> A \<and> v \<in> B)"
  by (auto simp: conc_def)

lemma Nil_in_conc: "[] \<in> conc A B \<longleftrightarrow> [] \<in> A \<and> [] \<in> B"
  by (auto simp: conc_def)

lemma Cons_in_conc:
  "c # w \<in> conc A B \<longleftrightarrow>
     ([] \<in> A \<and> c # w \<in> B) \<or> (\<exists>u v. w = u @ v \<and> c # u \<in> A \<and> v \<in> B)"
proof
  assume "c # w \<in> conc A B"
  then obtain u v where uv: "c # w = u @ v" "u \<in> A" "v \<in> B"
    by (auto simp: conc_def)
  show "([] \<in> A \<and> c # w \<in> B) \<or> (\<exists>u v. w = u @ v \<and> c # u \<in> A \<and> v \<in> B)"
  proof (cases u)
    case Nil
    with uv show ?thesis by simp
  next
    case (Cons d u')
    with uv have "w = u' @ v" "c # u' \<in> A" by simp_all
    with uv show ?thesis by blast
  qed
next
  assume "([] \<in> A \<and> c # w \<in> B) \<or> (\<exists>u v. w = u @ v \<and> c # u \<in> A \<and> v \<in> B)"
  then show "c # w \<in> conc A B"
  proof
    assume "[] \<in> A \<and> c # w \<in> B"
    then have "[] @ (c # w) \<in> conc A B" unfolding conc_def by blast
    then show ?thesis by simp
  next
    assume "\<exists>u v. w = u @ v \<and> c # u \<in> A \<and> v \<in> B"
    then obtain u v where "w = u @ v" "c # u \<in> A" "v \<in> B" by blast
    then have "(c # u) @ v \<in> conc A B" unfolding conc_def by blast
    with \<open>w = u @ v\<close> show ?thesis by simp
  qed
qed

lemma star_split_first:
  "x \<in> star A \<Longrightarrow> x = c # w \<Longrightarrow> \<exists>u v. w = u @ v \<and> c # u \<in> A \<and> v \<in> star A"
proof (induction arbitrary: w rule: star.induct)
  case star_Nil
  then show ?case by simp
next
  case (star_app u v)
  show ?case
  proof (cases u)
    case Nil
    with star_app show ?thesis by simp
  next
    case (Cons d u')
    with star_app.prems have "w = u' @ v" "d = c" by simp_all
    with Cons star_app.hyps show ?thesis by blast
  qed
qed

lemma Cons_in_star:
  "c # w \<in> star A \<longleftrightarrow> (\<exists>u v. w = u @ v \<and> c # u \<in> A \<and> v \<in> star A)"
proof
  assume "c # w \<in> star A"
  then show "\<exists>u v. w = u @ v \<and> c # u \<in> A \<and> v \<in> star A"
    by (rule star_split_first) simp
next
  assume "\<exists>u v. w = u @ v \<and> c # u \<in> A \<and> v \<in> star A"
  then obtain u v where "w = u @ v" "c # u \<in> A" "v \<in> star A" by blast
  then have "(c # u) @ v \<in> star A" by (blast intro: star_app)
  with \<open>w = u @ v\<close> show "c # w \<in> star A" by simp
qed

lemma nullable_iff: "nullable r \<longleftrightarrow> [] \<in> lang r"
  by (induction r) (auto simp: Nil_in_conc star_Nil)

lemma lang_deriv: "w \<in> lang (deriv c r) \<longleftrightarrow> c # w \<in> lang r"
proof (induction r arbitrary: w)
  case (Cat r s)
  then have "w \<in> lang (deriv c (Cat r s)) \<longleftrightarrow>
      ([] \<in> lang r \<and> c # w \<in> lang s) \<or> (\<exists>u v. w = u @ v \<and> c # u \<in> lang r \<and> v \<in> lang s)"
    by (auto simp: nullable_iff conc_iff)
  then show ?case
    by (simp only: lang.simps Cons_in_conc)
next
  case (Star r)
  then show ?case
    by (simp add: Cons_in_star conc_iff)
next
  case (Plus r)
  have "c # w \<in> conc (lang r) (star (lang r)) \<longleftrightarrow>
        (\<exists>u v. w = u @ v \<and> c # u \<in> lang r \<and> v \<in> star (lang r))"
    by (auto simp: Cons_in_conc Cons_in_star)
  with Plus show ?case
    by (simp add: conc_iff)
qed auto

lemma fullmatch_iff: "fullmatch r s \<longleftrightarrow> s \<in> lang r"
proof -
  have "nullable (fold deriv s r) \<longleftrightarrow> s \<in> lang r"
    by (induction s arbitrary: r) (simp_all add: nullable_iff lang_deriv)
  then show ?thesis by (simp add: fullmatch_def)
qed

section \<open>The languages of the two patterns\<close>

lemma star_tokens:
  "w \<in> star {f i | i. P i} \<longleftrightarrow> (\<exists>is. list_all P is \<and> w = concat (map f is))"
proof
  assume "w \<in> star {f i | i. P i}"
  then show "\<exists>is. list_all P is \<and> w = concat (map f is)"
  proof (induction rule: star.induct)
    case star_Nil
    have "list_all P [] \<and> [] = concat (map f [])" by simp
    then show ?case by blast
  next
    case (star_app u v)
    then obtain i "is" where "P i" "u = f i" "list_all P is" "v = concat (map f is)"
      by blast
    then have "list_all P (i # is) \<and> u @ v = concat (map f (i # is))" by simp
    then show ?case by blast
  qed
next
  assume "\<exists>is. list_all P is \<and> w = concat (map f is)"
  then obtain "is" where "list_all P is" "w = concat (map f is)" by blast
  then show "w \<in> star {f i | i. P i}"
  proof (induction "is" arbitrary: w)
    case Nil
    then show ?case by (simp add: star_Nil)
  next
    case (Cons i "is")
    then have "f i \<in> {f i | i. P i}" "concat (map f is) \<in> star {f i | i. P i}"
      by auto
    then have "f i @ concat (map f is) \<in> star {f i | i. P i}" by (rule star_app)
    with Cons.prems show ?case by simp
  qed
qed

lemma star_chars: "w \<in> star {[c] | c. P c} \<longleftrightarrow> list_all P w"
proof -
  have "concat (map (\<lambda>c. [c]) cs) = cs" for cs :: pystr
    by (induction cs) simp_all
  then show ?thesis
    using star_tokens [of w "\<lambda>c. [c]" P] by auto
qed

lemma plus_chars:
  "w \<in> conc {[c] | c. P c} (star {[c] | c. P c}) \<longleftrightarrow> w \<noteq> [] \<and> list_all P w"
  by (cases w) (auto simp: Cons_in_conc Nil_in_conc star_chars)

lemma in_class_lower: "in_class [range CHR ''a'' CHR ''z''] c \<longleftrightarrow> lower c"
  by (simp add: lower_def)

lemma in_class_ident:
  "in_class [range CHR ''a'' CHR ''z'', range CHR ''_'' CHR ''_''] c \<longleftrightarrow> ident_char c"
  by (auto simp: ident_char_def lower_def)

lemma lang_name: "lang (Plus (Class [range CHR ''a'' CHR ''z''])) = {w. name_ok w}"
  using plus_chars [of _ lower]
  by (simp only: lang.simps in_class_lower name_ok_def) blast

lemma lang_ident:
  "lang (Plus (Class [range CHR ''a'' CHR ''z'', range CHR ''_'' CHR ''_''])) = {w. ident_ok w}"
  using plus_chars [of _ ident_char]
  by (simp only: lang.simps in_class_ident ident_ok_def) blast

lemma lang_required:
  "lang (cats [lit CHR '' '', lit CHR ''<'',
               Plus (Class [range CHR ''a'' CHR ''z'', range CHR ''_'' CHR ''_'']),
               lit CHR ''>''])
   = {str '' '' @ token (Required i) | i. ident_ok i}"
proof -
  have "w \<in> lang (cats [lit CHR '' '', lit CHR ''<'',
               Plus (Class [range CHR ''a'' CHR ''z'', range CHR ''_'' CHR ''_'']),
               lit CHR ''>'']) \<longleftrightarrow> (\<exists>i. ident_ok i \<and> w = str '' '' @ token (Required i))" for w
    by (simp only: cats.simps lang.simps(7) conc_iff lang_ident) auto
  then show ?thesis by blast
qed

lemma lang_optional:
  "lang (cats [lit CHR '' '', lit CHR ''['', lit CHR ''<'',
               Plus (Class [range CHR ''a'' CHR ''z'', range CHR ''_'' CHR ''_'']),
               lit CHR ''>'', lit CHR '']''])
   = {str '' '' @ token (Optional i) | i. ident_ok i}"
proof -
  have "w \<in> lang (cats [lit CHR '' '', lit CHR ''['', lit CHR ''<'',
               Plus (Class [range CHR ''a'' CHR ''z'', range CHR ''_'' CHR ''_'']),
               lit CHR ''>'', lit CHR '']'']) \<longleftrightarrow> (\<exists>i. ident_ok i \<and> w = str '' '' @ token (Optional i))" for w
    by (simp only: cats.simps lang.simps(7) conc_iff lang_ident) auto
  then show ?thesis by blast
qed

lemma lang_cats4:
  "lang (cats [a, b, Star c, Star d])
   = conc (lang a) (conc (lang b) (conc (star (lang c)) (star (lang d))))"
  by simp

lemma in_conc3:
  "s \<in> conc {p} (conc N (conc U V)) \<longleftrightarrow>
     (\<exists>n u v. n \<in> N \<and> u \<in> U \<and> v \<in> V \<and> s = p @ n @ u @ v)"
  unfolding conc_def by blast

lemma lang_usage_re:
  "s \<in> lang usage_re \<longleftrightarrow>
     (\<exists>name reqs opts. name_ok name \<and> list_all ident_ok reqs \<and> list_all ident_ok opts \<and>
        s = usage_of name (map Required reqs @ map Optional opts))"
proof -
  have "lang usage_re =
      conc {str ''/''} (conc {w. name_ok w}
        (conc (star {str '' '' @ token (Required i) | i. ident_ok i})
              (star {str '' '' @ token (Optional i) | i. ident_ok i})))"
    unfolding usage_re_def lang_cats4
    by (simp only: lang_required lang_optional lang_name lang.simps(3) list.map)
  then have "s \<in> lang usage_re \<longleftrightarrow>
     (\<exists>name u v. name \<in> {w. name_ok w}
        \<and> u \<in> star {str '' '' @ token (Required i) | i. ident_ok i}
        \<and> v \<in> star {str '' '' @ token (Optional i) | i. ident_ok i} \<and> s = str ''/'' @ name @ u @ v)"
    by (simp only: in_conc3)
  also have "\<dots> \<longleftrightarrow> (\<exists>name reqs opts. name_ok name \<and> list_all ident_ok reqs \<and> list_all ident_ok opts \<and>
        s = str ''/'' @ name @ concat (map (\<lambda>i. str '' '' @ token (Required i)) reqs)
              @ concat (map (\<lambda>i. str '' '' @ token (Optional i)) opts))"
    unfolding star_tokens mem_Collect_eq by blast
  also have "\<dots> \<longleftrightarrow> (\<exists>name reqs opts. name_ok name \<and> list_all ident_ok reqs \<and> list_all ident_ok opts \<and>
        s = usage_of name (map Required reqs @ map Optional opts))"
    unfolding usage_of_def by (simp add: comp_def)
  finally show ?thesis .
qed

lemma in_conc_opt:
  "s \<in> conc {p} (conc N (insert [] (conc {q} T))) \<longleftrightarrow>
     (\<exists>n. n \<in> N \<and> (s = p @ n \<or> (\<exists>t. t \<in> T \<and> s = p @ n @ q @ t)))"
  unfolding conc_def by (simp, blast)

lemma lang_command_re:
  "s \<in> lang command_re \<longleftrightarrow>
     (\<exists>name. name_ok name \<and> (s = str ''/'' @ name \<or> (\<exists>t. 10 \<notin> set t \<and> s = str ''/'' @ name @ str '' '' @ t)))"
proof -
  have "lang Dot = {[c] | c. c \<noteq> 10}" by simp
  then have any: "star (lang Dot) = {t. 10 \<notin> set t}"
    using star_chars [of _ "\<lambda>c. c \<noteq> 10"] by (auto simp: list_all_iff)
  have "lang command_re =
      conc {str ''/''} (conc {w. name_ok w} (insert [] (conc {str '' ''} (star (lang Dot)))))"
    unfolding command_re_def
    by (simp only: cats.simps lang.simps(3,7,8,10) lang_name list.map)
  then show ?thesis
    by (simp only: in_conc_opt any mem_Collect_eq)
qed

section \<open>Splitting and counting\<close>

declare split.simps [simp del]
declare count.simps [simp del]

lemma split_Nil: "split m [] = []"
  by (subst split.simps) simp

lemma split_Cons:
  "split m (c # s) =
     (if isspace c then split m s
      else if m = Some 0 then [c # s]
      else (c # takeWhile (\<lambda>c. \<not> isspace c) s)
             # split (map_option (\<lambda>n. n - 1) m) (dropWhile (\<lambda>c. \<not> isspace c) s))"
proof (cases "isspace c")
  case True
  then show ?thesis
    using split.simps [of m "c # s"] split.simps [of m s] by simp
next
  case False
  then show ?thesis
    using split.simps [of m "c # s"] by simp
qed

lemma split_all_space: "list_all isspace sp \<Longrightarrow> split m sp = []"
  by (induction sp) (simp_all add: split_Nil split_Cons)

lemma split_skip: "list_all isspace sp \<Longrightarrow> split m (sp @ s) = split m s"
  by (induction sp) (simp_all add: split_Cons)

lemma split_rest: "r \<noteq> [] \<Longrightarrow> \<not> isspace (hd r) \<Longrightarrow> split (Some 0) r = [r]"
  by (cases r) (simp_all add: split_Cons)

lemma takeWhile_word:
  assumes "list_all (\<lambda>c. \<not> isspace c) w" and "r = [] \<or> isspace (hd r)"
  shows "takeWhile (\<lambda>c. \<not> isspace c) (w @ r) = w"
    and "dropWhile (\<lambda>c. \<not> isspace c) (w @ r) = r"
proof -
  from assms(2) have r: "takeWhile (\<lambda>c. \<not> isspace c) r = []" "dropWhile (\<lambda>c. \<not> isspace c) r = r"
    by (cases r; simp)+
  from assms(1) have all: "\<And>x. x \<in> set w \<Longrightarrow> \<not> isspace x"
    by (simp add: list_all_iff)
  from all r show "takeWhile (\<lambda>c. \<not> isspace c) (w @ r) = w"
    by (simp add: takeWhile_append2)
  from all r show "dropWhile (\<lambda>c. \<not> isspace c) (w @ r) = r"
    by (simp add: dropWhile_append2)
qed

lemma split_word:
  assumes "w \<noteq> []" and "list_all (\<lambda>c. \<not> isspace c) w" and "r = [] \<or> isspace (hd r)"
    and "m \<noteq> Some 0"
  shows "split m (w @ r) = w # split (map_option (\<lambda>n. n - 1) m) r"
proof -
  from assms(1) obtain c w' where w: "w = c # w'" by (cases w) auto
  with assms(2) have c: "\<not> isspace c" and w': "list_all (\<lambda>c. \<not> isspace c) w'" by simp_all
  from w' assms(3) have "takeWhile (\<lambda>c. \<not> isspace c) (w' @ r) = w'"
    and "dropWhile (\<lambda>c. \<not> isspace c) (w' @ r) = r"
    by (rule takeWhile_word)+
  with w c assms(4) show ?thesis
    by (simp add: split_Cons)
qed

lemma length_split: "length (split (Some n) s) \<le> n + 1"
proof (induction n arbitrary: s)
  case 0
  show ?case by (subst split.simps) (simp add: Let_def)
next
  case (Suc n)
  have "length (split (Some n) (dropWhile (\<lambda>c. \<not> isspace c) (dropWhile isspace s))) \<le> n + 1"
    by (rule Suc.IH)
  then show ?case by (subst split.simps) (simp add: Let_def)
qed

lemma split_last:
  "length (split (Some n) s) = n + 1 \<Longrightarrow>
   \<exists>pre. s = pre @ last (split (Some n) s) \<and> split None pre = butlast (split (Some n) s)"
proof (induction n arbitrary: s)
  case 0
  define t where "t = dropWhile isspace s"
  have s0: "split (Some 0) s = (if t = [] then [] else [t])"
    by (subst split.simps) (simp add: Let_def t_def)
  with 0 have "t \<noteq> []" by (auto split: if_splits)
  with s0 have eq: "split (Some 0) s = [t]" by simp
  have "s = takeWhile isspace s @ t" by (simp add: t_def)
  moreover have "split None (takeWhile isspace s) = []"
    by (rule split_all_space) (auto simp: list_all_iff dest: set_takeWhileD)
  ultimately show ?case using eq by auto
next
  case (Suc n)
  define sp where "sp = takeWhile isspace s"
  define t where "t = dropWhile isspace s"
  define w where "w = takeWhile (\<lambda>c. \<not> isspace c) t"
  define r where "r = dropWhile (\<lambda>c. \<not> isspace c) t"
  have s1: "split (Some (Suc n)) s = (if t = [] then [] else w # split (Some n) r)"
    by (subst split.simps) (simp add: Let_def t_def w_def r_def)
  with Suc.prems have t: "t \<noteq> []" by (auto split: if_splits)
  with s1 have eq: "split (Some (Suc n)) s = w # split (Some n) r" by simp
  with Suc.prems have len: "length (split (Some n) r) = n + 1" by simp
  then have ne: "split (Some n) r \<noteq> []" by auto
  from Suc.IH [OF len] obtain pre where pre: "r = pre @ last (split (Some n) r)"
    "split None pre = butlast (split (Some n) r)" by blast
  from t have "\<not> isspace (hd t)" unfolding t_def by (rule hd_dropWhile)
  with t have wne: "w \<noteq> []" unfolding w_def by (cases t) auto
  have wall: "list_all (\<lambda>c. \<not> isspace c) w"
    unfolding w_def by (auto simp: list_all_iff dest: set_takeWhileD)
  have rsp: "r = [] \<or> isspace (hd r)"
    unfolding r_def using hd_dropWhile [of "\<lambda>c. \<not> isspace c" t] by auto
  have presp: "pre = [] \<or> isspace (hd pre)"
  proof (cases pre)
    case Nil
    then show ?thesis by simp
  next
    case (Cons a list)
    with pre(1) have "r \<noteq> []" and "hd r = hd pre"
      by (metis append_is_Nil_conv list.distinct(1), metis hd_append2 list.distinct(1))
    with rsp show ?thesis by simp
  qed
  have spall: "list_all isspace sp"
    unfolding sp_def by (auto simp: list_all_iff dest: set_takeWhileD)
  have "s = sp @ w @ r" by (simp add: sp_def t_def w_def r_def)
  with pre(1) have "s = (sp @ w @ pre) @ last (split (Some n) r)" by simp
  moreover have "split None (sp @ w @ pre) = w # split None pre"
    using split_skip [OF spall] split_word [OF wne wall presp, of None] by simp
  ultimately show ?case using eq ne pre(2) by auto
qed

lemma splitlines_from_one:
  "list_all (\<lambda>c. \<not> islinebreak c) s \<Longrightarrow>
   splitlines_from cur s = (if cur @ s = [] then [] else [cur @ s])"
  by (induction cur s rule: splitlines_from.induct) simp_all

lemma splitlines_one:
  "s \<noteq> [] \<Longrightarrow> list_all (\<lambda>c. \<not> islinebreak c) s \<Longrightarrow> splitlines s = [s]"
  by (simp add: splitlines_def splitlines_from_one)

lemma splitlines_from_nonempty: "cur \<noteq> [] \<or> s \<noteq> [] \<Longrightarrow> splitlines_from cur s \<noteq> []"
  by (induction cur s rule: splitlines_from.induct) simp_all

lemma count_Nil: "sub \<noteq> [] \<Longrightarrow> count [] sub = 0"
  by (subst count.simps) simp

lemma count_one_Cons: "count (c # s) [a] = (if c = a then 1 else 0) + count s [a]"
  by (subst count.simps) simp

lemma count_one: "count s [a] = length (filter (\<lambda>c. c = a) s)"
  by (induction s) (simp_all add: count_Nil count_one_Cons)

lemma count_two_skip:
  assumes "a \<noteq> b"
  shows "count (b # s) [a, b] = count s [a, b]"
proof (cases s)
  case Nil
  have "count [b] [a, b] = 0" by (subst count.simps) simp
  with Nil show ?thesis by (simp add: count_Nil)
next
  case (Cons d s')
  with assms show ?thesis by (subst count.simps) simp
qed

lemma count_two_Cons:
  assumes "a \<noteq> b"
  shows "count (c # s) [a, b] = (if c = a \<and> take 1 s = [b] then 1 else 0) + count s [a, b]"
proof (cases s)
  case Nil
  have "count [c] [a, b] = 0" by (subst count.simps) simp
  with Nil show ?thesis by (simp add: count_Nil)
next
  case (Cons d s')
  show ?thesis
  proof (cases "c = a \<and> d = b")
    case True
    with assms Cons show ?thesis
      using count_two_skip [OF assms, of s'] by (subst count.simps) simp
  next
    case False
    with Cons show ?thesis
      by (subst count.simps) auto
  qed
qed

lemma count_two_absent: "a \<noteq> b \<Longrightarrow> a \<notin> set s \<Longrightarrow> count s [a, b] = 0"
  by (induction s) (simp_all add: count_Nil count_two_Cons)

lemma count_two_append:
  "a \<noteq> b \<Longrightarrow> take 1 v \<noteq> [b] \<Longrightarrow> count (u @ v) [a, b] = count u [a, b] + count v [a, b]"
proof (induction u)
  case Nil
  then show ?case by (simp add: count_Nil)
next
  case (Cons c u)
  then show ?case by (cases u) (simp_all add: count_two_Cons count_Nil)
qed

section \<open>Usage strings\<close>

lemma lower_plain: "lower c \<Longrightarrow> \<not> isspace c \<and> c \<noteq> 32 \<and> c \<noteq> 60 \<and> c \<noteq> 62 \<and> c \<noteq> 91 \<and> c \<noteq> 93"
  by (auto simp: lower_def isspace_def)

lemma ident_char_plain:
  "ident_char c \<Longrightarrow> \<not> isspace c \<and> c \<noteq> 32 \<and> c \<noteq> 60 \<and> c \<noteq> 62 \<and> c \<noteq> 91 \<and> c \<noteq> 93"
  by (auto simp: ident_char_def lower_def isspace_def)

lemma name_plain:
  assumes "name_ok name"
  shows "list_all (\<lambda>c. \<not> isspace c) (str ''/'' @ name)" and "32 \<notin> set (str ''/'' @ name)"
  using assms lower_plain by (auto simp: name_ok_def list_all_iff isspace_def)

lemma token_plain:
  assumes "ident_ok (ident p)"
  shows "list_all (\<lambda>c. \<not> isspace c) (token p)" and "32 \<notin> set (token p)" and "token p \<noteq> []"
  using assms ident_char_plain
  by (cases p; auto simp: ident_ok_def list_all_iff isspace_def)+

lemma usage_of_text: "usage_of name params = (str ''/'' @ name) @ params_text params"
  by (simp add: usage_of_def params_text_def)

lemma params_text_Cons: "params_text (p # ps) = str '' '' @ token p @ params_text ps"
  by (simp add: params_text_def)

lemma params_text_hd: "params_text ps = [] \<or> hd (params_text ps) = 32"
  by (cases ps) (simp_all add: params_text_def)

lemma split_params_text:
  "list_all (\<lambda>p. ident_ok (ident p)) ps \<Longrightarrow> split None (params_text ps) = map token ps"
proof (induction ps)
  case Nil
  show ?case by (simp add: params_text_def split_Nil)
next
  case (Cons p ps)
  then have p: "ident_ok (ident p)" by simp
  have sp: "params_text ps = [] \<or> isspace (hd (params_text ps))"
    using params_text_hd [of ps] by (auto simp: isspace_def)
  have "split None (str '' '' @ token p @ params_text ps) = split None (token p @ params_text ps)"
    by (rule split_skip) (simp add: isspace_def)
  also have "\<dots> = token p # split None (params_text ps)"
    using split_word [OF token_plain(3) [OF p] token_plain(1) [OF p] sp, of None] by simp
  finally show ?case using Cons by (simp add: params_text_Cons)
qed

lemma split_usage_of:
  assumes "usage_ok name params"
  shows "split None (usage_of name params) = (str ''/'' @ name) # map token params"
proof -
  from assms have n: "name_ok name" and ps: "list_all (\<lambda>p. ident_ok (ident p)) params"
    by (simp_all add: usage_ok_def)
  have sp: "params_text params = [] \<or> isspace (hd (params_text params))"
    using params_text_hd [of params] by (auto simp: isspace_def)
  have "split None ((str ''/'' @ name) @ params_text params)
      = (str ''/'' @ name) # split None (params_text params)"
    using split_word [OF _ name_plain(1) [OF n] sp, of None] by simp
  with ps show ?thesis by (simp add: usage_of_text split_params_text)
qed

lemma count_space_usage_of:
  assumes "usage_ok name params"
  shows "count (usage_of name params) (str '' '') = length params"
proof -
  from assms have n: "name_ok name" and ps: "list_all (\<lambda>p. ident_ok (ident p)) params"
    by (simp_all add: usage_ok_def)
  from ps have "length (filter (\<lambda>c. c = 32) (params_text params)) = length params"
  proof (induction params)
    case Nil
    show ?case by (simp add: params_text_def)
  next
    case (Cons p ps)
    then have "32 \<notin> set (token p)" by (simp add: token_plain(2))
    then have "filter (\<lambda>c. c = 32) (token p) = []" by (auto simp: filter_empty_conv)
    with Cons show ?case by (simp add: params_text_Cons)
  qed
  moreover from name_plain(2) [OF n] have "filter (\<lambda>c. c = 32) (str ''/'' @ name) = []"
    by (auto simp: filter_empty_conv)
  ultimately show ?thesis
    by (simp add: usage_of_text count_one)
qed

lemma count_required_token:
  assumes "ident_ok (ident p)"
  shows "count (str '' '' @ token p) (str '' <'') = (if is_required p then 1 else 0)"
proof -
  have "count (token p) [32, 60] = 0"
    using token_plain(2) [OF assms] by (intro count_two_absent) simp_all
  then show ?thesis
    by (cases p) (simp_all add: count_two_Cons)
qed

lemma count_required_usage_of:
  assumes "usage_ok name params"
  shows "count (usage_of name params) (str '' <'') = length (filter is_required params)"
proof -
  from assms have n: "name_ok name" and ps: "list_all (\<lambda>p. ident_ok (ident p)) params"
    by (simp_all add: usage_ok_def)
  have nb: "take 1 (params_text qs) \<noteq> [60]" for qs
    using params_text_hd [of qs] by (cases "params_text qs") auto
  from ps have "count (params_text params) [32, 60] = length (filter is_required params)"
  proof (induction params)
    case Nil
    show ?case by (simp add: params_text_def count_Nil)
  next
    case (Cons p ps)
    then have p: "ident_ok (ident p)" by simp
    have "count ((str '' '' @ token p) @ params_text ps) [32, 60]
        = count (str '' '' @ token p) [32, 60] + count (params_text ps) [32, 60]"
      using nb [of ps] by (intro count_two_append) simp_all
    with Cons count_required_token [OF p] show ?case
      by (simp add: params_text_Cons)
  qed
  moreover have "count (str ''/'' @ name) [32, 60] = 0"
    using name_plain(2) [OF n] by (intro count_two_absent) simp_all
  moreover have "count ((str ''/'' @ name) @ params_text params) [32, 60]
        = count (str ''/'' @ name) [32, 60] + count (params_text params) [32, 60]"
    using nb [of params] by (intro count_two_append) simp_all
  ultimately show ?thesis
    by (simp add: usage_of_text)
qed

lemma strip_token:
  assumes "ident_ok (ident p)"
  shows "strip (str ''[<>]'') (token p) = ident p"
proof -
  define i where "i = ident p"
  from assms have ne: "i \<noteq> []" and all: "list_all ident_char i"
    by (simp_all add: ident_ok_def i_def)
  define B where "B = (\<lambda>c::nat. c \<in> set (str ''[<>]''))"
  from all have nb: "\<And>c. c \<in> set i \<Longrightarrow> \<not> B c"
    using ident_char_plain by (auto simp: list_all_iff B_def)
  have keep: "dropWhile B (xs @ r) = xs @ r" if "xs \<noteq> []" "\<not> B (hd xs)" for xs r
    using that by (cases xs) simp_all
  from ne nb have front: "dropWhile B (i @ r) = i @ r" for r
    by (intro keep) simp_all
  from ne have "hd (rev i) \<in> set i"
    by (simp add: hd_rev)
  with ne nb have rear: "dropWhile B (rev i @ r) = rev i @ r" for r
    by (intro keep) simp_all
  have "rev (dropWhile B (rev (dropWhile B (token p)))) = i"
  proof (cases p)
    case (Required j)
    then have "token p = 60 # i @ [62]" by (simp add: i_def)
    moreover have "dropWhile B (60 # i @ [62]) = i @ [62]"
      using front [of "[62]"] by (simp add: B_def)
    moreover have "dropWhile B (rev (i @ [62])) = rev i"
      using rear [of "[]"] by (simp add: B_def)
    ultimately show ?thesis by simp
  next
    case (Optional j)
    then have "token p = 91 # 60 # i @ [62, 93]" by (simp add: i_def)
    moreover have "dropWhile B (91 # 60 # i @ [62, 93]) = i @ [62, 93]"
      using front [of "[62, 93]"] by (simp add: B_def)
    moreover have "dropWhile B (rev (i @ [62, 93])) = rev i"
      using rear [of "[]"] by (simp add: B_def)
    ultimately show ?thesis by simp
  qed
  then show ?thesis by (simp add: strip_def B_def i_def)
qed

section \<open>The registry after import\<close>

lemma fold_add_Inl:
  "fold (\<lambda>(usage, func) r. case r of Inl e \<Rightarrow> Inl e | Inr c \<Rightarrow> add_command usage func c) cs (Inl e)
   = Inl e"
  by (induction cs) (simp_all add: case_prod_beta)

lemma add_commands_Nil: "add_commands [] c = Inr c"
  by (simp add: add_commands_def)

lemma add_commands_Cons:
  "add_commands ((usage, func) # cs) c =
     (case add_command usage func c of Inl e \<Rightarrow> Inl e | Inr c' \<Rightarrow> add_commands cs c')"
  by (cases "add_command usage func c") (simp_all add: add_commands_def fold_add_Inl)

lemma add_default_commands_eq:
  "add_default_commands = Inr
     (Map.empty
       (str ''/join'' \<mapsto> (str ''/join <channel>'', Def1 (str ''channel'') join),
        str ''/part'' \<mapsto> (str ''/part [<channel>]'', Def1opt (str ''channel'') part),
        str ''/quit'' \<mapsto> (str ''/quit'', Def0 quit),
        str ''/nick'' \<mapsto> (str ''/nick <new_nick>'', Def1 (str ''new_nick'') nick),
        str ''/topic'' \<mapsto> (str ''/topic <new_topic>'', Def1 (str ''new_topic'') topic),
        str ''/me'' \<mapsto> (str ''/me <message>'', Def1 (str ''message'') me),
        str ''/msg'' \<mapsto> (str ''/msg <nick> <message>'', Def2 (str ''nick'') (str ''message'') msg),
        str ''/nickserv'' \<mapsto> (str ''/nickserv <message>'', Def1 (str ''message'') msg_nickserv),
        str ''/ns'' \<mapsto> (str ''/ns <message>'', Def1 (str ''message'') msg_nickserv),
        str ''/memoserv'' \<mapsto> (str ''/memoserv <message>'', Def1 (str ''message'') msg_memoserv),
        str ''/ms'' \<mapsto> (str ''/ms <message>'', Def1 (str ''message'') msg_memoserv)))"
  unfolding add_default_commands_def default_commands_def
  by (simp add: add_commands_Cons add_commands_Nil add_command_def fullmatch_def usage_re_def
      split_Cons split_Nil isspace_def)

lemmas commands_eq = commands_def [unfolded add_default_commands_eq sum.case]

lemma import_ok: "add_default_commands = Inr commands"
  by (simp add: commands_def add_default_commands_eq)

section \<open>The plain-text path\<close>

lemma handle_plain:
  "entry \<noteq> [] \<Longrightarrow> \<not> fullmatch command_re entry \<Longrightarrow>
   handle_command cmds askyesno view entry = Inr (plain_text_path askyesno view entry)"
  by (simp add: handle_command_def)

lemma command_starts:
  assumes "fullmatch command_re entry"
  shows "\<exists>c rest. entry = 47 # c # rest \<and> lower c"
proof -
  from assms obtain name where n: "name_ok name"
    and e: "entry = str ''/'' @ name \<or> (\<exists>t. 10 \<notin> set t \<and> entry = str ''/'' @ name @ str '' '' @ t)"
    unfolding fullmatch_iff lang_command_re by blast
  from n obtain c name' where "name = c # name'" "lower c"
    by (cases name) (auto simp: name_ok_def)
  with e show ?thesis by auto
qed

lemma double_slash_plain: "startswith entry (str ''//'') \<Longrightarrow> \<not> fullmatch command_re entry"
proof
  assume s: "startswith entry (str ''//'')" and "fullmatch command_re entry"
  then obtain c rest where "entry = 47 # c # rest" "lower c"
    using command_starts by blast
  with s show False by (simp add: startswith_def lower_def)
qed

lemma no_slash_plain: "\<not> startswith entry (str ''/'') \<Longrightarrow> \<not> fullmatch command_re entry"
  using command_starts by (fastforce simp: startswith_def)

lemma entry_lines_nonempty: "entry \<noteq> [] \<Longrightarrow> entry_lines entry \<noteq> []"
proof -
  assume ne: "entry \<noteq> []"
  have "startswith entry (str ''//'') \<Longrightarrow> drop 1 entry \<noteq> []"
    by (cases entry; cases "tl entry") (simp_all add: startswith_def)
  with ne show ?thesis
    using splitlines_from_nonempty [of "[]"]
    by (simp add: entry_lines_def splitlines_def)
qed

lemma send_all_other:
  "concat (map (send_privmsg OtherView) ls)
   = replicate (length ls) (AddMessage (str ''*'') not_sendable [])"
  by (induction ls) (simp_all add: send_privmsg_def)

lemma send_all_target:
  "view = ChannelView t \<or> view = PMView t \<Longrightarrow>
   concat (map (send_privmsg view) ls) = map (SendPrivmsg t) ls"
  by (induction ls) (auto simp: send_privmsg_def)

text \<open>
  C1 (amended). For every plain-text input dispatched in a context with no send
  target, handle issues no send call and emits the inline not-sendable message once
  for each line of the input (there is at least one line), and it returns true; only
  when the input has more than 3 lines and the user declines the confirmation does it
  return false, and then with no message at all.
\<close>

theorem plain_text_without_target:
  assumes "entry \<noteq> []" and "\<not> fullmatch command_re entry"
  shows "entry_lines entry \<noteq> [] \<and>
    handle_command cmds askyesno OtherView entry =
      Inr (let n = length (entry_lines entry);
               ask = AskYesNo askyesno_title askyesno_message (askyesno_detail n);
               told = replicate n (AddMessage (str ''*'') not_sendable [])
           in if n \<le> 3 then (True, told)
              else if askyesno askyesno_title askyesno_message (askyesno_detail n)
              then (True, ask # told)
              else (False, [ask]))"
  using assms
  by (simp add: handle_plain plain_text_path_def send_lines_def send_all_other
      entry_lines_nonempty Let_def)

theorem plain_text_without_target_witness:
  "str ''hi there'' \<noteq> [] \<and> \<not> fullmatch command_re (str ''hi there'') \<and>
   handle_command commands declines OtherView (str ''hi there'')
     = Inr (True, [AddMessage (str ''*'') not_sendable []])"
proof -
  have a: "str ''hi there'' \<noteq> []" by simp
  have b: "\<not> fullmatch command_re (str ''hi there'')"
    by (simp add: fullmatch_def command_re_def)
  have c: "entry_lines (str ''hi there'') = [str ''hi there'']"
    by (simp add: entry_lines_def startswith_def splitlines_def islinebreak_def)
  show ?thesis
    using a b c plain_text_without_target [OF a b, of commands declines]
    by (simp add: Let_def)
qed

text \<open>
  In a view without send target, \<open>hi there\<close> is answered with the message, and the
  result is true, not false.
\<close>

theorem no_target_returns_true_counterexample:
  "handle_command commands declines OtherView (str ''hi there'')
     = Inr (True, [AddMessage (str ''*'') not_sendable []])"
  by (simp add: handle_command_def fullmatch_def command_re_def plain_text_path_def
      send_lines_def entry_lines_def startswith_def splitlines_def islinebreak_def
      send_privmsg_def)

text \<open>
  C2 (amended). For every non-empty input, handle takes the command path if and only
  if the input is a slash, one or more lowercase letters \<open>a\<close> to \<open>z\<close>, then optionally a
  space character (U+0020, no other whitespace) followed by any characters other than
  line feed; every other non-empty input takes the plain-text path.
\<close>

theorem command_path_iff_pattern:
  assumes "entry \<noteq> []"
  shows "handle_command cmds askyesno view entry =
    (if \<exists>name. name_ok name \<and>
          (entry = str ''/'' @ name \<or> (\<exists>t. 10 \<notin> set t \<and> entry = str ''/'' @ name @ str '' '' @ t))
     then command_path cmds view entry
     else Inr (plain_text_path askyesno view entry))"
  using assms
  by (simp only: handle_command_def fullmatch_iff lang_command_re if_False)

theorem command_path_iff_pattern_witness:
  "str ''/join #a'' \<noteq> [] \<and>
   handle_command commands accepts OtherView (str ''/join #a'')
     = command_path commands OtherView (str ''/join #a'') \<and>
   str ''join #a'' \<noteq> [] \<and>
   handle_command commands accepts OtherView (str ''join #a'')
     = Inr (plain_text_path accepts OtherView (str ''join #a''))"
proof -
  have "name_ok (str ''join'') \<and> 10 \<notin> set (str ''#a'')
      \<and> str ''/join #a'' = str ''/'' @ str ''join'' @ str '' '' @ str ''#a''"
    by (simp add: name_ok_def lower_def)
  then have yes: "\<exists>name. name_ok name \<and>
      (str ''/join #a'' = str ''/'' @ name \<or>
       (\<exists>t. 10 \<notin> set t \<and> str ''/join #a'' = str ''/'' @ name @ str '' '' @ t))"
    by blast
  have no: "\<not> (\<exists>name. name_ok name \<and>
      (str ''join #a'' = str ''/'' @ name \<or>
       (\<exists>t. 10 \<notin> set t \<and> str ''join #a'' = str ''/'' @ name @ str '' '' @ t)))"
    by simp
  have a: "str ''/join #a'' \<noteq> []" and b: "str ''join #a'' \<noteq> []" by simp_all
  from command_path_iff_pattern [OF a, of commands accepts OtherView]
    command_path_iff_pattern [OF b, of commands accepts OtherView]
    yes no a b
  show ?thesis by (simp only: if_True if_False simp_thms)
qed

text \<open>
  A tab after the letters: the input has the shape that the spec gives, but it is sent
  as text to the channel, where the command path would have joined \<open>#a\<close>.
\<close>

theorem tab_after_command_counterexample:
  "spec_command_shape (str ''/join'' @ [9] @ str ''#a'') \<and>
   handle_command commands accepts (ChannelView (str ''#x''))
       (str ''/join'' @ [9] @ str ''#a'')
     = Inr (True, [SendPrivmsg (str ''#x'') (str ''/join'' @ [9] @ str ''#a'')]) \<and>
   command_path commands (ChannelView (str ''#x'')) (str ''/join'' @ [9] @ str ''#a'')
     = Inr (True, [JoinChannel (str ''#a'')])"
proof -
  have "name_ok (str ''join'') \<and> isspace 9
      \<and> str ''/join'' @ [9] @ str ''#a'' = str ''/'' @ str ''join'' @ 9 # str ''#a''"
    by (simp add: name_ok_def lower_def isspace_def)
  then have "spec_command_shape (str ''/join'' @ [9] @ str ''#a'')"
    unfolding spec_command_shape_def by blast
  moreover have "handle_command commands accepts (ChannelView (str ''#x''))
       (str ''/join'' @ [9] @ str ''#a'')
     = Inr (True, [SendPrivmsg (str ''#x'') (str ''/join'' @ [9] @ str ''#a'')])"
    by (simp add: handle_command_def fullmatch_def command_re_def plain_text_path_def
      send_lines_def entry_lines_def startswith_def splitlines_def islinebreak_def
      send_privmsg_def)
  moreover have "command_path commands (ChannelView (str ''#x'')) (str ''/join'' @ [9] @ str ''#a'')
     = Inr (True, [JoinChannel (str ''#a'')])"
    by (simp add: command_path_def split_args_def split_Cons split_Nil isspace_def commands_eq
        count_one count_two_Cons count_Nil strip_def dict_def join_def)
  ultimately show ?thesis by blast
qed

text \<open>
  C3 (amended). For every plain-text input in a channel or direct-message context, the
  confirmation is asked exactly once if the input splits into more than 3 lines and
  never otherwise; if the user declines, handle returns false with no send; if the user
  accepts (or the input has at most 3 lines), one send is issued per line, in the order
  of the input, and handle returns true.
\<close>

theorem plain_text_with_target:
  assumes "entry \<noteq> []" and "\<not> fullmatch command_re entry"
    and "view = ChannelView target \<or> view = PMView target"
  shows "handle_command cmds askyesno view entry =
      Inr (let lines = entry_lines entry;
               detail = askyesno_detail (length lines);
               ask = AskYesNo askyesno_title askyesno_message detail
           in if length lines \<le> 3 then (True, map (SendPrivmsg target) lines)
              else if askyesno askyesno_title askyesno_message detail
              then (True, ask # map (SendPrivmsg target) lines)
              else (False, [ask]))"
  using assms(1,2) send_all_target [OF assms(3)]
  by (simp add: handle_plain plain_text_path_def send_lines_def Let_def)

theorem plain_text_with_target_witness:
  "handle_command commands accepts (ChannelView (str ''#x''))
       (str ''a'' @ [10] @ str ''b'' @ [10] @ str ''c'' @ [10] @ str ''d'')
     = Inr (True, [AskYesNo askyesno_title askyesno_message (askyesno_detail 4),
                   SendPrivmsg (str ''#x'') (str ''a''), SendPrivmsg (str ''#x'') (str ''b''),
                   SendPrivmsg (str ''#x'') (str ''c''), SendPrivmsg (str ''#x'') (str ''d'')]) \<and>
   handle_command commands declines (PMView (str ''bob''))
       (str ''a'' @ [10] @ str ''b'' @ [10] @ str ''c'' @ [10] @ str ''d'')
     = Inr (False, [AskYesNo askyesno_title askyesno_message (askyesno_detail 4)]) \<and>
   handle_command commands declines (PMView (str ''bob''))
       (str ''a'' @ [10] @ str ''b'' @ [10] @ str ''c'')
     = Inr (True, [SendPrivmsg (str ''bob'') (str ''a''), SendPrivmsg (str ''bob'') (str ''b''),
                   SendPrivmsg (str ''bob'') (str ''c'')])"
proof -
  let ?four = "str ''a'' @ [10] @ str ''b'' @ [10] @ str ''c'' @ [10] @ str ''d''"
  let ?three = "str ''a'' @ [10] @ str ''b'' @ [10] @ str ''c''"
  have ne: "?four \<noteq> []" "?three \<noteq> []" by simp_all
  have plain: "\<not> fullmatch command_re ?four" "\<not> fullmatch command_re ?three"
    by (simp_all add: fullmatch_def command_re_def)
  have lines: "entry_lines ?four = [str ''a'', str ''b'', str ''c'', str ''d'']"
    "entry_lines ?three = [str ''a'', str ''b'', str ''c'']"
    by (simp_all add: entry_lines_def startswith_def splitlines_def islinebreak_def)
  have v: "ChannelView (str ''#x'') = ChannelView (str ''#x'') \<or> ChannelView (str ''#x'') = PMView (str ''#x'')"
    "PMView (str ''bob'') = ChannelView (str ''bob'') \<or> PMView (str ''bob'') = PMView (str ''bob'')"
    by simp_all
  show ?thesis
    using plain_text_with_target [OF ne(1) plain(1) v(1), of commands accepts]
      plain_text_with_target [OF ne(1) plain(1) v(2), of commands declines]
      plain_text_with_target [OF ne(2) plain(2) v(2), of commands declines]
      lines
    by (simp add: Let_def accepts_def declines_def eval_nat_numeral)
qed

text \<open>
  Two lines in a view without send target: handle returns true, and there is no send.
\<close>

theorem no_target_no_send_counterexample:
  "handle_command commands accepts OtherView (str ''hello'' @ [10] @ str ''world'')
     = Inr (True, [AddMessage (str ''*'') not_sendable [], AddMessage (str ''*'') not_sendable []])"
  by (simp add: handle_command_def fullmatch_def command_re_def plain_text_path_def
      send_lines_def entry_lines_def startswith_def splitlines_def islinebreak_def
      send_privmsg_def)

text \<open>
  C6. For every input that starts with two slashes, the pattern of the command path
  does not match, so no command is looked up, and the lines that are sent are those of
  the input without its first character: exactly one slash is stripped.
  \<open>//like this\<close> is sent as the plain text \<open>/like this\<close>.
\<close>

theorem double_slash_escape:
  assumes "startswith entry (str ''//'')"
  shows "\<not> fullmatch command_re entry \<and>
    handle_command cmds askyesno view entry
      = Inr (send_lines askyesno view (splitlines (drop 1 entry))) \<and>
    take 1 (drop 1 entry) = str ''/'' \<and>
    handle_command cmds askyesno (ChannelView target) (str ''//like this'')
      = Inr (True, [SendPrivmsg target (str ''/like this'')])"
proof -
  from assms have ne: "entry \<noteq> []" by (auto simp: startswith_def)
  from assms have plain: "\<not> fullmatch command_re entry" by (rule double_slash_plain)
  from assms have "take 1 (drop 1 entry) = str ''/''"
    by (cases entry; cases "tl entry") (simp_all add: startswith_def)
  moreover have "handle_command cmds askyesno (ChannelView target) (str ''//like this'')
      = Inr (True, [SendPrivmsg target (str ''/like this'')])"
    by (simp add: handle_command_def fullmatch_def command_re_def plain_text_path_def
      send_lines_def entry_lines_def startswith_def splitlines_def islinebreak_def
      send_privmsg_def)
  ultimately show ?thesis
    using assms ne plain by (simp add: handle_plain plain_text_path_def entry_lines_def)
qed

theorem double_slash_escape_witness:
  "startswith (str ''//like this'') (str ''//'') \<and>
   \<not> fullmatch command_re (str ''//like this'') \<and>
   handle_command commands declines (PMView (str ''bob'')) (str ''//like this'')
     = Inr (True, [SendPrivmsg (str ''bob'') (str ''/like this'')])"
proof -
  have a: "startswith (str ''//like this'') (str ''//'')" by (simp add: startswith_def)
  have "splitlines (drop 1 (str ''//like this'')) = [str ''/like this'']"
    by (simp add: splitlines_def islinebreak_def)
  with a double_slash_escape [OF a, of commands declines "PMView (str ''bob'')"]
  show ?thesis by (simp add: send_lines_def send_privmsg_def)
qed

text \<open>
  C10. For every non-empty string \<open>s\<close> without a line boundary, dispatching
  \<open>escape_message(s)\<close> in a channel or direct-message context does not match the pattern
  of the command path, whether or not \<open>s\<close> starts with a slash, and issues exactly one
  send, whose text is \<open>s\<close> itself.
\<close>

theorem escape_round_trip:
  assumes "s \<noteq> []" and "list_all (\<lambda>c. \<not> islinebreak c) s"
    and "view = ChannelView target \<or> view = PMView target"
  shows "\<not> fullmatch command_re (escape_message s) \<and>
    handle_command cmds askyesno view (escape_message s) = Inr (True, [SendPrivmsg target s])"
proof (cases "startswith s (str ''/'')")
  case True
  then obtain r where s: "s = 47 # r" by (cases s) (auto simp: startswith_def)
  then have e: "escape_message s = 47 # 47 # r" by (simp add: escape_message_def startswith_def)
  then have d: "startswith (escape_message s) (str ''//'')" by (simp add: startswith_def)
  then have plain: "\<not> fullmatch command_re (escape_message s)" by (rule double_slash_plain)
  have "entry_lines (escape_message s) = [s]"
    using d e s splitlines_one [OF assms(1,2)] by (simp add: entry_lines_def)
  with plain assms(3) show ?thesis
    by (auto simp: e handle_plain plain_text_path_def send_lines_def send_privmsg_def)
next
  case False
  then have e: "escape_message s = s" by (simp add: escape_message_def)
  from False have plain: "\<not> fullmatch command_re s" by (rule no_slash_plain)
  from False have "\<not> startswith s (str ''//'')"
    by (cases s; cases "tl s") (auto simp: startswith_def)
  then have "entry_lines s = [s]"
    using splitlines_one [OF assms(1,2)] by (simp add: entry_lines_def)
  with plain assms(1,3) show ?thesis
    by (auto simp: e handle_plain plain_text_path_def send_lines_def send_privmsg_def)
qed

theorem escape_round_trip_witness:
  "escape_message (str ''/join #a'') = str ''//join #a'' \<and>
   handle_command commands declines (ChannelView (str ''#x'')) (str ''//join #a'')
     = Inr (True, [SendPrivmsg (str ''#x'') (str ''/join #a'')]) \<and>
   escape_message (str ''hello'') = str ''hello'' \<and>
   handle_command commands declines (PMView (str ''bob'')) (str ''hello'')
     = Inr (True, [SendPrivmsg (str ''bob'') (str ''hello'')])"
proof -
  have a: "str ''/join #a'' \<noteq> []" "str ''hello'' \<noteq> []" by simp_all
  have b: "list_all (\<lambda>c. \<not> islinebreak c) (str ''/join #a'')"
    "list_all (\<lambda>c. \<not> islinebreak c) (str ''hello'')"
    by (simp_all add: islinebreak_def)
  have v: "ChannelView (str ''#x'') = ChannelView (str ''#x'') \<or> ChannelView (str ''#x'') = PMView (str ''#x'')"
    "PMView (str ''bob'') = ChannelView (str ''bob'') \<or> PMView (str ''bob'') = PMView (str ''bob'')"
    by simp_all
  have e: "escape_message (str ''/join #a'') = str ''//join #a''"
    "escape_message (str ''hello'') = str ''hello''"
    by (simp_all add: escape_message_def startswith_def)
  show ?thesis
    using escape_round_trip [OF a(1) b(1) v(1), of commands declines]
      escape_round_trip [OF a(2) b(2) v(2), of commands declines] e
    by simp
qed

section \<open>The command path\<close>

lemma handle_command_path:
  "fullmatch command_re entry \<Longrightarrow>
   handle_command cmds askyesno view entry = command_path cmds view entry"
  using command_starts [of entry] by (auto simp: handle_command_def)

lemma command_parts:
  assumes "fullmatch command_re entry"
  obtains name rest where "name_ok name" and "entry = (str ''/'' @ name) @ rest"
    and "rest = [] \<or> isspace (hd rest)"
proof -
  from assms obtain name where n: "name_ok name"
    and e: "entry = str ''/'' @ name \<or> (\<exists>t. 10 \<notin> set t \<and> entry = str ''/'' @ name @ str '' '' @ t)"
    unfolding fullmatch_iff lang_command_re by blast
  from e show thesis
  proof
    assume "entry = str ''/'' @ name"
    with n that [of name "[]"] show thesis by simp
  next
    assume "\<exists>t. 10 \<notin> set t \<and> entry = str ''/'' @ name @ str '' '' @ t"
    then obtain t where "entry = (str ''/'' @ name) @ 32 # t" by auto
    with n that [of name "32 # t"] show thesis by (simp add: isspace_def)
  qed
qed

lemma split_command:
  assumes "fullmatch command_re entry" and "m \<noteq> Some 0"
  shows "\<exists>rest. split m entry = takeWhile (\<lambda>c. \<not> isspace c) entry # rest"
    and "take 1 (takeWhile (\<lambda>c. \<not> isspace c) entry) = str ''/''"
proof -
  from assms(1) obtain name rest where n: "name_ok name"
    and e: "entry = (str ''/'' @ name) @ rest" and r: "rest = [] \<or> isspace (hd rest)"
    by (rule command_parts)
  from takeWhile_word(1) [OF name_plain(1) [OF n] r] e
  have t: "takeWhile (\<lambda>c. \<not> isspace c) entry = str ''/'' @ name" by simp
  from split_word [OF _ name_plain(1) [OF n] r assms(2)] e t
  show "\<exists>rest. split m entry = takeWhile (\<lambda>c. \<not> isspace c) entry # rest" by simp
  from t show "take 1 (takeWhile (\<lambda>c. \<not> isspace c) entry) = str ''/''" by simp
qed

text \<open>
  C7. For every input on the command path whose first whitespace-delimited token is
  not a key of the registry, handle emits the one inline message
  \<open>No command named '<token>'\<close>, returns false and calls nothing of the backend. The
  token is the input up to its first whitespace, so it starts with the slash as typed.
\<close>

theorem unknown_command:
  assumes "fullmatch command_re entry" and "split None entry = word # rest"
    and "cmds word = None"
  shows "handle_command cmds askyesno view entry =
      Inr (False, [AddMessage (str ''*'') (str ''No command named '' @ [39] @ word @ [39]) []]) \<and>
    word = takeWhile (\<lambda>c. \<not> isspace c) entry \<and> take 1 word = str ''/''"
proof -
  from split_command [OF assms(1), of None] assms(2)
  have "word = takeWhile (\<lambda>c. \<not> isspace c) entry" and "take 1 word = str ''/''"
    by auto
  with assms show ?thesis
    by (simp add: handle_command_path command_path_def)
qed

theorem unknown_command_witness:
  "fullmatch command_re (str ''/bogus'') \<and> split None (str ''/bogus'') = [str ''/bogus''] \<and>
   commands (str ''/bogus'') = None \<and>
   handle_command commands declines (ChannelView (str ''#x'')) (str ''/bogus'')
     = Inr (False, [AddMessage (str ''*'') (str ''No command named '' @ [39] @ str ''/bogus'' @ [39]) []])"
proof -
  have a: "fullmatch command_re (str ''/bogus'')"
    by (simp add: fullmatch_def command_re_def)
  have b: "split None (str ''/bogus'') = str ''/bogus'' # []"
    by (simp add: split_Cons split_Nil isspace_def)
  have c: "commands (str ''/bogus'') = None"
    by (simp add: commands_eq)
  from unknown_command [where cmds = commands and askyesno = declines
      and view = "ChannelView (str ''#x'')", OF a b c] a b c
  show ?thesis by blast
qed

text \<open>
  C4. Let the registry hold, under the first token of an input on the command path,
  a usage string of the grammar with its function, and let \<open>n\<close> be the number of
  arguments that the split yields. If \<open>n\<close> is less than the number of required
  parameters or greater than the number of declared parameters, handle emits the
  inline message \<open>Usage: \<close> followed by the usage string, returns false, and the
  function is not called: the outcome does not depend on it, and the backend is not
  called.
\<close>

theorem wrong_number_of_arguments:
  assumes "usage_ok name params"
    and "fullmatch command_re entry" and "split None entry = word # rest"
    and "cmds word = Some (usage_of name params, func)"
    and "n = length (split_args (usage_of name params) entry)"
    and "n < length (filter is_required params) \<or> n > length params"
  shows "handle_command cmds askyesno view entry =
      Inr (False, [AddMessage (str ''*'') (str ''Usage: '' @ usage_of name params) []])"
  using assms(2-6)
  by (simp add: handle_command_path command_path_def Let_def
      count_space_usage_of [OF assms(1)] count_required_usage_of [OF assms(1)]
      del: map_map list.map)

theorem wrong_number_of_arguments_witness:
  "usage_ok (str ''join'') [Required (str ''channel'')] \<and>
   usage_of (str ''join'') [Required (str ''channel'')] = str ''/join <channel>'' \<and>
   commands (str ''/join'')
     = Some (usage_of (str ''join'') [Required (str ''channel'')], Def1 (str ''channel'') join) \<and>
   handle_command commands declines (ChannelView (str ''#x'')) (str ''/join'')
     = Inr (False, [AddMessage (str ''*'')
         (str ''Usage: '' @ usage_of (str ''join'') [Required (str ''channel'')]) []]) \<and>
   usage_ok (str ''quit'') [] \<and>
   usage_of (str ''quit'') [] = str ''/quit'' \<and>
   commands (str ''/quit'') = Some (usage_of (str ''quit'') [], Def0 quit) \<and>
   handle_command commands declines (ChannelView (str ''#x'')) (str ''/quit now please'')
     = Inr (False, [AddMessage (str ''*'') (str ''Usage: '' @ usage_of (str ''quit'') []) []])"
proof -
  have ok: "usage_ok (str ''join'') [Required (str ''channel'')]" "usage_ok (str ''quit'') []"
    by (simp_all add: usage_ok_def name_ok_def ident_ok_def lower_def ident_char_def)
  have u: "usage_of (str ''join'') [Required (str ''channel'')] = str ''/join <channel>''"
    "usage_of (str ''quit'') [] = str ''/quit''"
    by (simp_all add: usage_of_def)
  have m: "fullmatch command_re (str ''/join'')" "fullmatch command_re (str ''/quit now please'')"
    by (simp_all add: fullmatch_def command_re_def)
  have s: "split None (str ''/join'') = str ''/join'' # []"
    "split None (str ''/quit now please'') = str ''/quit'' # [str ''now'', str ''please'']"
    by (simp_all add: split_Cons split_Nil isspace_def)
  have c: "commands (str ''/join'')
      = Some (usage_of (str ''join'') [Required (str ''channel'')], Def1 (str ''channel'') join)"
    "commands (str ''/quit'') = Some (usage_of (str ''quit'') [], Def0 quit)"
    by (simp_all add: commands_eq usage_of_def)
  have n: "0 = length (split_args (usage_of (str ''join'') [Required (str ''channel'')]) (str ''/join''))"
    "1 = length (split_args (usage_of (str ''quit'') []) (str ''/quit now please''))"
    by (simp_all add: split_args_def usage_of_def count_one split_Cons split_Nil isspace_def)
  have b: "0 < length (filter is_required [Required (str ''channel'')])
      \<or> 0 > length [Required (str ''channel'')]"
    "1 < length (filter is_required []) \<or> 1 > length ([] :: param list)"
    by simp_all
  from wrong_number_of_arguments [where cmds = commands and askyesno = declines
      and view = "ChannelView (str ''#x'')", OF ok(1) m(1) s(1) c(1) n(1) b(1)]
    wrong_number_of_arguments [where cmds = commands and askyesno = declines
      and view = "ChannelView (str ''#x'')", OF ok(2) m(2) s(2) c(2) n(2) b(2)]
    ok c u
  show ?thesis by blast
qed

text \<open>
  C5 (amended). On the command path the input is split into the command token and at
  most \<open>max(1, number of declared parameters)\<close> argument pieces (the bound is never zero,
  so a command without parameters still gets one piece when text follows it). When
  that many pieces are obtained, the last piece is the rest of the input up to its
  end, embedded and trailing whitespace included, and what precedes it splits on
  whitespace into the command token and the other pieces. In particular
  \<open>/topic hello world\<close> in the channel \<open>#x\<close> issues exactly one
  \<open>change_topic("#x", "hello world")\<close> and returns true.
\<close>

theorem last_argument_absorbs_rest:
  assumes "usage_ok name params"
  shows "length (split_args (usage_of name params) entry) \<le> max 1 (length params) \<and>
    (length (split_args (usage_of name params) entry) = max 1 (length params) \<longrightarrow>
       (\<exists>pre. entry = pre @ last (split_args (usage_of name params) entry) \<and>
              drop 1 (split None pre) = butlast (split_args (usage_of name params) entry))) \<and>
    handle_command commands askyesno (ChannelView (str ''#x'')) (str ''/topic hello world'')
      = Inr (True, [ChangeTopic (str ''#x'') (str ''hello world'')])"
proof -
  define k where "k = max (length params) 1"
  define ws where "ws = split (Some k) entry"
  have args: "split_args (usage_of name params) entry = drop 1 ws"
    using count_space_usage_of [OF assms] by (simp add: split_args_def k_def ws_def)
  have k: "1 \<le> k" "max 1 (length params) = k" by (simp_all add: k_def)
  have len: "length ws \<le> k + 1" unfolding ws_def by (rule length_split)
  have absorb: "\<exists>pre. entry = pre @ last (drop 1 ws) \<and> drop 1 (split None pre) = butlast (drop 1 ws)"
    if full: "length (drop 1 ws) = k"
  proof -
    from full k have l: "length ws = k + 1" by simp
    with split_last [of k entry] obtain pre
      where pre: "entry = pre @ last ws" "split None pre = butlast ws"
      unfolding ws_def by blast
    from l k(1) have "2 \<le> length ws" by simp
    then obtain w ws' where w: "ws = w # ws'" "ws' \<noteq> []"
      by (cases ws) force+
    with pre have "entry = pre @ last (drop 1 ws)"
      and "drop 1 (split None pre) = butlast (drop 1 ws)"
      by simp_all
    then show ?thesis by blast
  qed
  have "handle_command commands askyesno (ChannelView (str ''#x'')) (str ''/topic hello world'')
      = Inr (True, [ChangeTopic (str ''#x'') (str ''hello world'')])"
    by (simp add: handle_command_def fullmatch_def command_re_def command_path_def
        split_args_def split_Cons split_Nil isspace_def commands_eq
        count_one count_two_Cons count_Nil strip_def dict_def topic_def)
  with len absorb show ?thesis
    unfolding args k(2) by auto
qed

theorem last_argument_absorbs_rest_witness:
  "usage_ok (str ''msg'') [Required (str ''nick''), Required (str ''message'')] \<and>
   usage_of (str ''msg'') [Required (str ''nick''), Required (str ''message'')]
     = str ''/msg <nick> <message>'' \<and>
   split_args (str ''/msg <nick> <message>'') (str ''/msg bob  how are  you '')
     = [str ''bob'', str ''how are  you ''] \<and>
   (\<exists>pre. str ''/msg bob  how are  you '' = pre @ str ''how are  you '' \<and>
          drop 1 (split None pre) = [str ''bob''])"
proof -
  have ok: "usage_ok (str ''msg'') [Required (str ''nick''), Required (str ''message'')]"
    by (simp add: usage_ok_def name_ok_def ident_ok_def lower_def ident_char_def)
  have u: "usage_of (str ''msg'') [Required (str ''nick''), Required (str ''message'')]
     = str ''/msg <nick> <message>''"
    by (simp add: usage_of_def)
  have a: "split_args (str ''/msg <nick> <message>'') (str ''/msg bob  how are  you '')
     = [str ''bob'', str ''how are  you '']"
    by (simp add: split_args_def count_one split_Cons split_Nil isspace_def)
  from last_argument_absorbs_rest [OF ok, of "str ''/msg bob  how are  you ''" declines]
  have "\<exists>pre. str ''/msg bob  how are  you '' = pre @ str ''how are  you '' \<and>
          drop 1 (split None pre) = [str ''bob'']"
    unfolding u a by simp
  with ok u a show ?thesis by blast
qed

text \<open>
  \<open>/quit\<close> declares no parameter, and yet the text after it is split off as one piece.
\<close>

theorem quit_one_piece_counterexample:
  "commands (str ''/quit'') = Some (usage_of (str ''quit'') [], Def0 quit) \<and>
   length ([] :: param list) = 0 \<and>
   split_args (usage_of (str ''quit'') []) (str ''/quit now please'') = [str ''now please'']"
  by (simp add: commands_eq usage_of_def split_args_def count_one split_Cons split_Nil
      isspace_def)

lemma fullmatch_command_space:
  assumes "name_ok name" and "10 \<notin> set t"
  shows "fullmatch command_re (str ''/'' @ name @ str '' '' @ t)"
  unfolding fullmatch_iff lang_command_re using assms by blast

lemma split_zero:
  "\<not> list_all isspace m \<Longrightarrow> split (Some 0) m = [dropWhile isspace m]"
  by (subst split.simps) (simp add: Let_def dropWhile_eq_Nil_conv list_all_iff)

text \<open>
  C9 (amended). For every message \<open>m\<close> that contains no line feed and does not consist
  of whitespace only, dispatching \<open>/ns m\<close> or \<open>/nickserv m\<close> in any context has the
  effect of dispatching \<open>/msg NickServ m\<close>: it returns true after the single call
  \<open>send_privmsg("NickServ", m')\<close>, where \<open>m'\<close> is \<open>m\<close> without its leading whitespace
  (so \<open>m\<close> itself when it does not start with whitespace). Likewise \<open>/ms\<close> and
  \<open>/memoserv\<close> are \<open>/msg MemoServ\<close>.
\<close>

theorem service_aliases:
  assumes "10 \<notin> set m" and "\<not> list_all isspace m"
  shows "handle_command commands askyesno view (str ''/ns '' @ m)
      = Inr (True, [SendPrivmsg (str ''NickServ'') (dropWhile isspace m)]) \<and>
    handle_command commands askyesno view (str ''/nickserv '' @ m)
      = Inr (True, [SendPrivmsg (str ''NickServ'') (dropWhile isspace m)]) \<and>
    handle_command commands askyesno view (str ''/msg NickServ '' @ m)
      = Inr (True, [SendPrivmsg (str ''NickServ'') (dropWhile isspace m)]) \<and>
    handle_command commands askyesno view (str ''/ms '' @ m)
      = Inr (True, [SendPrivmsg (str ''MemoServ'') (dropWhile isspace m)]) \<and>
    handle_command commands askyesno view (str ''/memoserv '' @ m)
      = Inr (True, [SendPrivmsg (str ''MemoServ'') (dropWhile isspace m)]) \<and>
    handle_command commands askyesno view (str ''/msg MemoServ '' @ m)
      = Inr (True, [SendPrivmsg (str ''MemoServ'') (dropWhile isspace m)])"
proof -
  have names: "name_ok (str ''ns'')" "name_ok (str ''nickserv'')" "name_ok (str ''msg'')"
    "name_ok (str ''ms'')" "name_ok (str ''memoserv'')"
    by (simp_all add: name_ok_def lower_def)
  from assms(1) have long: "10 \<notin> set (str ''NickServ '' @ m)" "10 \<notin> set (str ''MemoServ '' @ m)"
    by simp_all
  note matches =
    fullmatch_command_space [OF names(1) assms(1)]
    fullmatch_command_space [OF names(2) assms(1)]
    fullmatch_command_space [OF names(3) long(1)]
    fullmatch_command_space [OF names(4) assms(1)]
    fullmatch_command_space [OF names(5) assms(1)]
    fullmatch_command_space [OF names(3) long(2)]
  note run = handle_command_path command_path_def split_args_def split_Cons split_Nil
    isspace_def commands_eq count_one count_two_Cons count_Nil strip_def dict_def
    split_zero [OF assms(2)] msg_nickserv_def msg_memoserv_def msg_def
  from matches(1) have 1: "handle_command commands askyesno view (str ''/ns '' @ m)
      = Inr (True, [SendPrivmsg (str ''NickServ'') (dropWhile isspace m)])"
    by (simp add: run)
  from matches(2) have 2: "handle_command commands askyesno view (str ''/nickserv '' @ m)
      = Inr (True, [SendPrivmsg (str ''NickServ'') (dropWhile isspace m)])"
    by (simp add: run)
  from matches(3) have 3: "handle_command commands askyesno view (str ''/msg NickServ '' @ m)
      = Inr (True, [SendPrivmsg (str ''NickServ'') (dropWhile isspace m)])"
    by (simp add: run)
  from matches(4) have 4: "handle_command commands askyesno view (str ''/ms '' @ m)
      = Inr (True, [SendPrivmsg (str ''MemoServ'') (dropWhile isspace m)])"
    by (simp add: run)
  from matches(5) have 5: "handle_command commands askyesno view (str ''/memoserv '' @ m)
      = Inr (True, [SendPrivmsg (str ''MemoServ'') (dropWhile isspace m)])"
    by (simp add: run)
  from matches(6) have 6: "handle_command commands askyesno view (str ''/msg MemoServ '' @ m)
      = Inr (True, [SendPrivmsg (str ''MemoServ'') (dropWhile isspace m)])"
    by (simp add: run)
  from 1 2 3 4 5 6 show ?thesis by blast
qed

theorem service_aliases_witness:
  "10 \<notin> set (str ''identify  hunter2 '') \<and> \<not> list_all isspace (str ''identify  hunter2 '') \<and>
   handle_command commands declines OtherView (str ''/ns '' @ str ''identify  hunter2 '')
     = Inr (True, [SendPrivmsg (str ''NickServ'') (dropWhile isspace (str ''identify  hunter2 ''))]) \<and>
   dropWhile isspace (str ''identify  hunter2 '') = str ''identify  hunter2 ''"
proof -
  have a: "10 \<notin> set (str ''identify  hunter2 '')" by simp
  have b: "\<not> list_all isspace (str ''identify  hunter2 '')" by (simp add: isspace_def)
  have c: "dropWhile isspace (str ''identify  hunter2 '') = str ''identify  hunter2 ''"
    by (simp add: isspace_def)
  from service_aliases [OF a b, of declines OtherView, THEN conjunct1] a b c
  show ?thesis by blast
qed

text \<open>
  The message \<open>" x"\<close>, with a leading space, reaches NickServ as \<open>"x"\<close>.
\<close>

theorem leading_space_dropped_counterexample:
  "handle_command commands declines OtherView (str ''/ns '' @ str '' x'')
     = Inr (True, [SendPrivmsg (str ''NickServ'') (str ''x'')]) \<and>
   str ''x'' \<noteq> str '' x''"
  by (simp add: handle_command_def fullmatch_def command_re_def command_path_def
      split_args_def split_Cons split_Nil isspace_def commands_eq
      count_one count_two_Cons count_Nil strip_def dict_def msg_nickserv_def msg_def)

section \<open>The grammar of usage strings\<close>

lemma required_first_optional:
  "list_all (\<lambda>p. \<not> is_required p) ps \<Longrightarrow> \<exists>opts. ps = map Optional opts"
proof (induction ps)
  case Nil
  then show ?case by simp
next
  case (Cons p ps)
  then obtain opts i where "ps = map Optional opts" "p = Optional i"
    by (cases p) auto
  then have "p # ps = map Optional (i # opts)" by simp
  then show ?case by - (rule exI)
qed

lemma required_first_iff:
  "required_first ps \<longleftrightarrow> (\<exists>reqs opts. ps = map Required reqs @ map Optional opts)"
proof
  show "required_first ps \<Longrightarrow> \<exists>reqs opts. ps = map Required reqs @ map Optional opts"
  proof (induction ps rule: required_first.induct)
    case 1
    have "[] = map Required [] @ map Optional []" by simp
    then show ?case by - (rule exI)+
  next
    case (2 i ps)
    then obtain reqs opts where "ps = map Required reqs @ map Optional opts" by auto
    then have "Required i # ps = map Required (i # reqs) @ map Optional opts" by simp
    then show ?case by - (rule exI)+
  next
    case (3 i ps)
    then obtain opts where "ps = map Optional opts"
      using required_first_optional by auto
    then have "Optional i # ps = map Required [] @ map Optional (i # opts)" by simp
    then show ?case by - (rule exI)+
  qed
next
  assume "\<exists>reqs opts. ps = map Required reqs @ map Optional opts"
  then obtain reqs opts where ps: "ps = map Required reqs @ map Optional opts" by blast
  have "required_first (map Optional opts)"
    by (cases opts) (simp_all add: list_all_iff)
  then have "required_first (map Required reqs @ map Optional opts)"
    by (induction reqs) simp_all
  with ps show "required_first ps" by simp
qed

lemma usage_ok_parts:
  "usage_ok name (map Required reqs @ map Optional opts) \<longleftrightarrow>
     name_ok name \<and> list_all ident_ok reqs \<and> list_all ident_ok opts"
  by (simp add: usage_ok_def list.pred_map comp_def)

lemma fullmatch_usage_re:
  "fullmatch usage_re usage \<longleftrightarrow>
     (\<exists>name params. usage_ok name params \<and> required_first params \<and> usage = usage_of name params)"
proof
  assume "fullmatch usage_re usage"
  then obtain name reqs opts where "name_ok name" "list_all ident_ok reqs" "list_all ident_ok opts"
    "usage = usage_of name (map Required reqs @ map Optional opts)"
    unfolding fullmatch_iff lang_usage_re by blast
  then have "usage_ok name (map Required reqs @ map Optional opts)
      \<and> required_first (map Required reqs @ map Optional opts)
      \<and> usage = usage_of name (map Required reqs @ map Optional opts)"
    using usage_ok_parts required_first_iff by blast
  then show "\<exists>name params. usage_ok name params \<and> required_first params \<and> usage = usage_of name params"
    by blast
next
  assume "\<exists>name params. usage_ok name params \<and> required_first params \<and> usage = usage_of name params"
  then obtain name params where ok: "usage_ok name params" and "required_first params"
    and u: "usage = usage_of name params" by blast
  then obtain reqs opts where ps: "params = map Required reqs @ map Optional opts"
    using required_first_iff by blast
  with ok have "name_ok name \<and> list_all ident_ok reqs \<and> list_all ident_ok opts"
    using usage_ok_parts by blast
  with u ps show "fullmatch usage_re usage"
    unfolding fullmatch_iff lang_usage_re by blast
qed

lemma token_inject: "token p = token q \<Longrightarrow> p = q"
  by (cases p; cases q) simp_all

lemma usage_of_inject:
  assumes "usage_ok name params" and "usage_ok name' params'"
    and "usage_of name params = usage_of name' params'"
  shows "params = params'"
proof -
  from assms have "map token params = map token params'"
    using split_usage_of [OF assms(1)] split_usage_of [OF assms(2)] by simp
  moreover have "inj token" by (rule injI) (rule token_inject)
  ultimately show ?thesis by (simp add: inj_map_eq_map)
qed

lemma required_after_optional_rejected:
  assumes "usage_ok name params" and "\<not> required_first params"
  shows "\<not> fullmatch usage_re (usage_of name params)"
proof
  assume "fullmatch usage_re (usage_of name params)"
  then obtain name' params' where "usage_ok name' params'" "required_first params'"
    "usage_of name params = usage_of name' params'"
    unfolding fullmatch_usage_re by blast
  with assms usage_of_inject show False by blast
qed

lemma add_command_accepts:
  "(\<exists>c. add_command usage func cmds = Inr c) \<longleftrightarrow> fullmatch usage_re usage"
proof (cases "fullmatch usage_re usage")
  case True
  then obtain name params where "usage_ok name params" "usage = usage_of name params"
    unfolding fullmatch_usage_re by blast
  then have "split None usage = (str ''/'' @ name) # map token params"
    by (simp add: split_usage_of)
  with True show ?thesis by (simp add: add_command_def)
next
  case False
  then show ?thesis by (simp add: add_command_def)
qed

lemma add_command_rejects:
  "\<not> fullmatch usage_re usage \<Longrightarrow> add_command usage func cmds = Inl AssertionError"
  by (simp add: add_command_def)

lemma add_commands_stop:
  "(usage, func) \<in> set cs \<Longrightarrow> \<not> fullmatch usage_re usage \<Longrightarrow> \<exists>e. add_commands cs cmds = Inl e"
proof (induction cs arbitrary: cmds)
  case Nil
  then show ?case by simp
next
  case (Cons x cs)
  obtain u f where x: "x = (u, f)" by (cases x)
  show ?case
  proof (cases "add_command u f cmds")
    case (Inl e)
    with x show ?thesis by (simp add: add_commands_Cons)
  next
    case (Inr c)
    with Cons.prems x have "(usage, func) \<in> set cs"
      by (auto simp: add_command_def split: if_splits)
    with Cons.IH Cons.prems(2) obtain e where "add_commands cs c = Inl e" by blast
    with Inr x show ?thesis by (simp add: add_commands_Cons)
  qed
qed

text \<open>
  C8. \<open>add_command\<close> accepts a usage string, that is its assertion holds and the entry
  is stored, if and only if the string is a slash and one or more lowercase letters,
  followed by parameter tokens \<open> <ident>\<close> and \<open> [<ident>]\<close> (\<open>ident\<close> over \<open>[a-z_]+\<close>) with
  no required token after an optional one. Every usage string of the default commands
  is accepted, so importing the module yields the registry. A usage string with a
  required parameter after an optional one fails the assertion, and a list of
  registrations that contains it ends in the error: no registry exists with which an
  input could be dispatched.
\<close>

theorem usage_grammar:
  "((\<exists>c. add_command usage func cmds = Inr c) \<longleftrightarrow>
      (\<exists>name params. usage_ok name params \<and> required_first params \<and> usage = usage_of name params)) \<and>
   list_all (\<lambda>(u, f). fullmatch usage_re u) default_commands \<and>
   add_default_commands = Inr commands \<and>
   (usage_ok name params \<and> \<not> required_first params \<longrightarrow>
      add_command (usage_of name params) func cmds = Inl AssertionError \<and>
      ((usage_of name params, func) \<in> set cs \<longrightarrow> (\<exists>e. add_commands cs cmds = Inl e)))"
proof -
  have "list_all (\<lambda>(u, f). fullmatch usage_re u) default_commands"
    by (simp add: default_commands_def fullmatch_def usage_re_def)
  then show ?thesis
    using add_command_accepts [of usage func cmds] fullmatch_usage_re [of usage] import_ok
      required_after_optional_rejected [of name params]
      add_command_rejects [of "usage_of name params" func cmds]
      add_commands_stop [of "usage_of name params" func cs cmds]
    by blast
qed

theorem usage_grammar_witness:
  "usage_ok (str ''foo'') [Optional (str ''a''), Required (str ''b'')] \<and>
   \<not> required_first [Optional (str ''a''), Required (str ''b'')] \<and>
   usage_of (str ''foo'') [Optional (str ''a''), Required (str ''b'')] = str ''/foo [<a>] <b>'' \<and>
   add_command (usage_of (str ''foo'') [Optional (str ''a''), Required (str ''b'')]) (Def0 quit) commands
     = Inl AssertionError \<and>
   usage_ok (str ''part'') [Optional (str ''channel'')] \<and>
   required_first [Optional (str ''channel'')] \<and>
   str ''/part [<channel>]'' = usage_of (str ''part'') [Optional (str ''channel'')] \<and>
   (\<exists>c. add_command (str ''/part [<channel>]'') (Def1opt (str ''channel'') part) commands = Inr c)"
proof -
  have bad: "usage_ok (str ''foo'') [Optional (str ''a''), Required (str ''b'')]"
    "\<not> required_first [Optional (str ''a''), Required (str ''b'')]"
    "usage_of (str ''foo'') [Optional (str ''a''), Required (str ''b'')] = str ''/foo [<a>] <b>''"
    by (simp_all add: usage_ok_def name_ok_def ident_ok_def lower_def ident_char_def usage_of_def)
  have good: "usage_ok (str ''part'') [Optional (str ''channel'')]"
    "required_first [Optional (str ''channel'')]"
    "str ''/part [<channel>]'' = usage_of (str ''part'') [Optional (str ''channel'')]"
    by (simp_all add: usage_ok_def name_ok_def ident_ok_def lower_def ident_char_def usage_of_def)
  from usage_grammar [of "str ''/part [<channel>]''" "Def1opt (str ''channel'') part" commands
      "str ''foo''" "[Optional (str ''a''), Required (str ''b'')]" "[]"]
    usage_grammar [of "str ''/part [<channel>]''" "Def0 quit" commands
      "str ''foo''" "[Optional (str ''a''), Required (str ''b'')]" "[]"]
    bad good
  show ?thesis by blast
qed

end
